theory Spec2Isabelle
  imports Main "HOL-Library.Multiset"
begin

section \<open>Python values, errors and library operations\<close>

text \<open>
  The program is \<^verbatim>\<open>jigsaw-generate.py\<close>. Every exception the modelled code can raise
  is a value of \<open>error\<close>; \<open>SystemExit\<close> is \<^verbatim>\<open>sys.exit(msg)\<close>, \<open>ReError\<close> is
  \<^verbatim>\<open>re.error\<close>.
\<close>

datatype error =
  IndexError | KeyError | NameError | ValueError | TypeError | ReError | SystemExit string

text \<open>
  A YAML scalar as the data file gives it: a text or a number (the code expects that
  a text may be "purely numeric").
\<close>

datatype scalar = SStr string | SInt int

text \<open>
  A content entry is a bare scalar or a dictionary with the keys \<^verbatim>\<open>text\<close>,
  \<^verbatim>\<open>size\<close> and \<^verbatim>\<open>hidden\<close>, each of which may be absent (\<open>None\<close>). The value of
  \<^verbatim>\<open>hidden\<close> is recorded by its truth value, the only way the code reads it.
\<close>

record fields =
  entry_text :: "scalar option"
  entry_size :: "scalar option"
  entry_hidden :: "bool option"

datatype entry = Bare scalar | Dict fields

text \<open>
  What a call of \<^verbatim>\<open>make_entry\<close> returns: a string, or Python's \<^verbatim>\<open>None\<close> when
  \<^verbatim>\<open>make_entry_util\<close> falls through all its branches.
\<close>

datatype pyret = StrVal string | NoneVal

text \<open>
  The operations of Python's library whose result the program text does not determine
  are parameters of the model:
  \<^item> \<open>rand_raw\<close>: the seeded generator, as the sequence of raw values it yields;
  \<^item> \<open>int_of_str\<close>: \<^verbatim>\<open>int(s)\<close> on a string, \<open>None\<close> where it raises \<^verbatim>\<open>ValueError\<close>;
  \<^item> \<open>re_expand\<close>: the expansion of a replacement template of \<^verbatim>\<open>re.sub\<close> against a
    match, given as (whole match, group 1, group 2), \<open>None\<close> where it raises
    \<^verbatim>\<open>re.error\<close>; which escapes of a template are accepted differs between Python
    releases;
  \<^item> \<open>dict_str\<close>: \<^verbatim>\<open>str(d)\<close> of a dictionary entry.
\<close>

record pyenv =
  rand_raw :: "nat \<Rightarrow> nat"
  int_of_str :: "string \<Rightarrow> int option"
  re_expand :: "string \<Rightarrow> string \<times> string \<times> string \<Rightarrow> string option"
  dict_str :: "fields \<Rightarrow> string"

text \<open>The backslash, which a string literal cannot hold.\<close>

definition bs :: string where
  "bs = [CHR 0x5C]"

text \<open>\<^verbatim>\<open>xs[i]\<close>: a negative index counts from the end, an index out of range raises.\<close>

definition py_index :: "'a list \<Rightarrow> int \<Rightarrow> error + 'a" where
  "py_index xs i =
     (if 0 \<le> i \<and> i < int (length xs) then Inr (xs ! nat i)
      else if - int (length xs) \<le> i \<and> i < 0 then Inr (xs ! nat (int (length xs) + i))
      else Inl IndexError)"

text \<open>\<^verbatim>\<open>xs[i] = v\<close> for an index that is not negative.\<close>

definition py_setitem :: "'a list \<Rightarrow> nat \<Rightarrow> 'a \<Rightarrow> error + 'a list" where
  "py_setitem xs i v = (if i < length xs then Inr (xs[i := v]) else Inl IndexError)"

text \<open>Evaluating a list display: the elements in order, the first exception wins.\<close>

fun collect :: "(error + 'a) list \<Rightarrow> error + 'a list" where
  "collect [] = Inr []"
| "collect (Inl e # rs) = Inl e"
| "collect (Inr x # rs) = (case collect rs of Inl e \<Rightarrow> Inl e | Inr xs \<Rightarrow> Inr (x # xs))"

text \<open>\<^verbatim>\<open>str(n)\<close> for an integer.\<close>

fun str_nat :: "nat \<Rightarrow> string" where
  "str_nat n =
     (if n < 10 then [''0123456789'' ! n]
      else str_nat (n div 10) @ [''0123456789'' ! (n mod 10)])"

declare str_nat.simps [simp del]

definition str_int :: "int \<Rightarrow> string" where
  "str_int i = (if i < 0 then ''-'' @ str_nat (nat (- i)) else str_nat (nat i))"

definition py_str :: "scalar \<Rightarrow> string" where
  "py_str v = (case v of SStr s \<Rightarrow> s | SInt i \<Rightarrow> str_int i)"

text \<open>The truth value of a scalar: the empty string and zero are false.\<close>

definition truthy :: "scalar \<Rightarrow> bool" where
  "truthy v = (case v of SStr s \<Rightarrow> s \<noteq> [] | SInt i \<Rightarrow> i \<noteq> 0)"

text \<open>\<^verbatim>\<open>'%s' % x\<close> for an element of a card list and for a returned entry.\<close>

definition fmt_entry :: "pyenv \<Rightarrow> entry \<Rightarrow> string" where
  "fmt_entry env x = (case x of Bare v \<Rightarrow> py_str v | Dict d \<Rightarrow> dict_str env d)"

definition fmt_ret :: "pyret \<Rightarrow> string" where
  "fmt_ret r = (case r of StrVal s \<Rightarrow> s | NoneVal \<Rightarrow> ''None'')"

section \<open>Global definitions\<close>

definition sizes :: "string list" where
  "sizes = [bs @ ''tiny'', bs @ ''scriptsize'', bs @ ''footnotesize'', bs @ ''small'',
            bs @ ''normalsize'', bs @ ''large'', bs @ ''Large'', bs @ ''LARGE'',
            bs @ ''huge'', bs @ ''Huge'']"

text \<open>\<^verbatim>\<open>cardnum\<close>: underline 6 and 9, return everything else as a string.\<close>

definition cardnum :: "int \<Rightarrow> string" where
  "cardnum n =
     (if n = 6 \<or> n = 9 then bs @ ''underline{'' @ str_int n @ ''}'' else str_int n)"

section \<open>Placing and rotating the cards\<close>

text \<open>
  \<^verbatim>\<open>random.shuffle(x)\<close> is the library's loop
  \<^verbatim>\<open>for i in reversed(range(1, len(x))): j = randbelow(i + 1); x[i], x[j] = x[j], x[i]\<close>.
  The \<open>p\<close>-th draw \<^verbatim>\<open>randbelow(n)\<close> of a run is \<open>g p mod n\<close> for the raw sequence \<open>g\<close>:
  every value below \<open>n\<close> is possible, and no other. The function returns the list and
  the number of draws made so far.
\<close>

definition randbelow :: "(nat \<Rightarrow> nat) \<Rightarrow> nat \<Rightarrow> nat \<Rightarrow> nat" where
  "randbelow g p n = g p mod n"

fun shuffle_loop :: "(nat \<Rightarrow> nat) \<Rightarrow> nat \<Rightarrow> 'a list \<Rightarrow> nat \<Rightarrow> 'a list \<times> nat" where
  "shuffle_loop g 0 x p = (x, p)"
| "shuffle_loop g (Suc k) x p =
     (let i = Suc k; j = randbelow g p (i + 1)
      in shuffle_loop g k (x[i := x ! j, j := x ! i]) (Suc p))"

definition shuffle :: "(nat \<Rightarrow> nat) \<Rightarrow> 'a list \<Rightarrow> nat \<Rightarrow> 'a list \<times> nat" where
  "shuffle g x p = shuffle_loop g (length x - 1) x p"

text \<open>
  \<^verbatim>\<open>triangleorder = list(range(num_triangle_cards)); random.shuffle(triangleorder)\<close>,
  and the same two lines for \<^verbatim>\<open>squareorder\<close>: solution card \<open>i\<close> goes to puzzle
  position \<open>order[i]\<close>.
\<close>

definition shuffled_order :: "pyenv \<Rightarrow> nat \<Rightarrow> nat \<Rightarrow> nat list \<times> nat" where
  "shuffled_order env n p = shuffle (rand_raw env) [0..<n] p"

text \<open>\<^verbatim>\<open>random.randint(0, k)\<close> is \<^verbatim>\<open>randbelow(k + 1)\<close>.\<close>

definition randint0 :: "pyenv \<Rightarrow> nat \<Rightarrow> nat \<Rightarrow> int" where
  "randint0 env k p = int (randbelow (rand_raw env) p (k + 1))"

text \<open>
  The first three (four) elements of a puzzle card:
  \<^verbatim>\<open>[solcard[(3 - rot) % 3], solcard[(4 - rot) % 3], solcard[(5 - rot) % 3], ...]\<close>.
  Python's \<^verbatim>\<open>%\<close> with a positive modulus is \<open>mod\<close> on \<open>int\<close>.
\<close>

definition tri_ring :: "'a list \<Rightarrow> int \<Rightarrow> error + 'a list" where
  "tri_ring solcard rot =
     collect [py_index solcard ((3 - rot) mod 3),
              py_index solcard ((4 - rot) mod 3),
              py_index solcard ((5 - rot) mod 3)]"

definition sq_ring :: "'a list \<Rightarrow> int \<Rightarrow> error + 'a list" where
  "sq_ring solcard rot =
     collect [py_index solcard ((4 - rot) mod 4),
              py_index solcard ((5 - rot) mod 4),
              py_index solcard ((6 - rot) mod 4),
              py_index solcard ((7 - rot) mod 4)]"

text \<open>
  The angle of the card number on a solution card, from the number angle \<open>pn\<close> and
  base orientation \<open>pb\<close> of the puzzle position, the base orientation \<open>so\<close> of the
  solution position and the rotation: \<^verbatim>\<open>(angle + 180) % 360 - 180\<close>.
\<close>

definition tri_angle :: "int \<Rightarrow> int \<Rightarrow> int \<Rightarrow> int \<Rightarrow> int" where
  "tri_angle pn so pb rot = (let angle = pn + (so - pb) - 120 * rot in (angle + 180) mod 360 - 180)"

definition sq_angle :: "int \<Rightarrow> int \<Rightarrow> int \<Rightarrow> int \<Rightarrow> int" where
  "sq_angle pn so pb rot = (let angle = pn + (so - pb) - 90 * rot in (angle + 180) mod 360 - 180)"

section \<open>The state of a run\<close>

text \<open>
  Each \<^verbatim>\<open>print(..., file=sys.stderr)\<close> is recorded as an event that carries the values
  formatted into the message: the entry without a \<^verbatim>\<open>text\<close> field (the message and the
  lines that list its other fields), the text and the size of an entry whose size is
  not a number, and the token of \<^verbatim>\<open>losub\<close> that has no substitution.
\<close>

datatype diag =
    NoTextField fields
  | UnrecognisedSize scalar scalar
  | UnrecognisedSubstitution string

text \<open>
  What the functions read and write besides their arguments: the number of draws made
  from the random generator, the standard error stream, the global \<^verbatim>\<open>exists_hidden\<close>
  and the two dictionaries of substitutions, which keep the order of insertion.
\<close>

record state =
  rng_pos :: nat
  stderr :: "diag list"
  exists_hidden :: bool
  dsubs :: "(string \<times> string) list"
  dsubsmd :: "(string \<times> string) list"

text \<open>
  A statement run from a state raises an exception or yields a value, and leaves a
  state; \<open>None\<close> stands for a run that never returns.
\<close>

type_synonym 'a run = "state \<Rightarrow> ((error + 'a) \<times> state) option"

definition ret :: "'a \<Rightarrow> 'a run" where
  "ret x s = Some (Inr x, s)"

definition raise :: "error \<Rightarrow> 'a run" where
  "raise e s = Some (Inl e, s)"

definition bnd :: "'a run \<Rightarrow> ('a \<Rightarrow> 'b run) \<Rightarrow> 'b run" where
  "bnd m f s =
     (case m s of
        None \<Rightarrow> None
      | Some (Inl e, s') \<Rightarrow> Some (Inl e, s')
      | Some (Inr x, s') \<Rightarrow> f x s')"

definition lift_res :: "error + 'a \<Rightarrow> 'a run" where
  "lift_res r s = Some (r, s)"

definition lift_opt :: "(error + 'a) option \<Rightarrow> 'a run" where
  "lift_opt r s = (case r of None \<Rightarrow> None | Some x \<Rightarrow> Some (x, s))"

definition modify :: "(state \<Rightarrow> state) \<Rightarrow> unit run" where
  "modify f s = Some (Inr (), f s)"

definition warn :: "diag \<Rightarrow> unit run" where
  "warn d = modify (\<lambda>s. s\<lparr>stderr := stderr s @ [d]\<rparr>)"

section \<open>Formatting an entry\<close>

text \<open>
  \<^verbatim>\<open>img_re = re.compile(r'!\[([^\]]*)\]\(([^\)]*)\)')\<close>. Neither group can hold the
  character that has to follow it, so a match that starts at a given place is unique:
  \<open>img_match\<close> gives the caption, the image and the text after a match at the start
  of its argument, \<open>img_search\<close> the leftmost match with the text before it.
\<close>

definition img_match :: "string \<Rightarrow> (string \<times> string \<times> string) option" where
  "img_match s =
     (case s of
        c1 # c2 # r \<Rightarrow>
          if c1 = CHR ''!'' \<and> c2 = CHR ''['' then
            (case dropWhile (\<lambda>c. c \<noteq> CHR '']'') r of
               d1 # d2 # r2 \<Rightarrow>
                 if d2 = CHR ''('' then
                   (case dropWhile (\<lambda>c. c \<noteq> CHR '')'') r2 of
                      d3 # r3 \<Rightarrow>
                        Some (takeWhile (\<lambda>c. c \<noteq> CHR '']'') r,
                              takeWhile (\<lambda>c. c \<noteq> CHR '')'') r2, r3)
                    | [] \<Rightarrow> None)
                 else None
             | _ \<Rightarrow> None)
          else None
      | _ \<Rightarrow> None)"

fun img_search :: "string \<Rightarrow> (string \<times> string \<times> string \<times> string) option" where
  "img_search [] = None"
| "img_search (c # cs) =
     (case img_match (c # cs) of
        Some (caption, img, rest) \<Rightarrow> Some ([], caption, img, rest)
      | None \<Rightarrow>
          (case img_search cs of
             None \<Rightarrow> None
           | Some (pre, caption, img, rest) \<Rightarrow> Some (c # pre, caption, img, rest)))"

text \<open>
  The loop of \<^verbatim>\<open>img2tex\<close>: while the text has a match, replace the first one
  (\<^verbatim>\<open>img_re.sub(template, text, count=1)\<close>) and search again. Nothing in the code bounds
  the number of rounds.
\<close>

partial_function (option) img2tex_loop :: "pyenv \<Rightarrow> string \<Rightarrow> (error + string) option" where
  "img2tex_loop env text =
     (case img_search text of
        None \<Rightarrow> Some (Inr text)
      | Some (pre, caption, img, rest) \<Rightarrow>
          (case re_expand env
                  (if caption \<noteq> [] then bs @ ''imagecap{'' @ img @ ''}{'' @ caption @ ''}''
                   else bs @ ''image{'' @ img @ ''}'')
                  (''!['' @ caption @ '']('' @ img @ '')'', caption, img) of
             None \<Rightarrow> Some (Inl ReError)
           | Some new \<Rightarrow> img2tex_loop env (pre @ new @ rest)))"

declare img2tex_loop.simps [code]

definition img2tex :: "pyenv \<Rightarrow> scalar \<Rightarrow> (error + string) option" where
  "img2tex env text = img2tex_loop env (py_str text)"

definition map_str :: "(string \<Rightarrow> string) \<Rightarrow> (error + string) option \<Rightarrow> (error + pyret) option" where
  "map_str f r =
     (case r of
        None \<Rightarrow> None
      | Some (Inl e) \<Rightarrow> Some (Inl e)
      | Some (Inr t) \<Rightarrow> Some (Inr (StrVal (f t))))"

definition make_entry_util ::
  "pyenv \<Rightarrow> scalar \<Rightarrow> string \<Rightarrow> bool \<Rightarrow> string \<Rightarrow> (error + pyret) option" where
  "make_entry_util env text sz mark_hidden style =
     (if mark_hidden then
        (if style = ''table'' then map_str (\<lambda>t. ''(*) '' @ t) (img2tex env text)
         else if style = ''tikz'' then
           map_str (\<lambda>t. ''{hidden}{'' @ sz @ '' '' @ t @ ''}'') (img2tex env text)
         else if style = ''md'' then Some (Inr (StrVal ('' (*) '' @ py_str text @ '' '')))
         else Some (Inr NoneVal))
      else
        (if style = ''table'' then map_str (\<lambda>t. t) (img2tex env text)
         else if style = ''tikz'' then
           map_str (\<lambda>t. ''{regular}{'' @ sz @ '' '' @ t @ ''}'') (img2tex env text)
         else if style = ''md'' then
           Some (Inr (StrVal ('' '' @ (if truthy text then py_str text else ''(BLANK)'') @ '' '')))
         else Some (Inr NoneVal)))"

text \<open>\<^verbatim>\<open>int(entry['size'])\<close>, \<open>None\<close> where it raises.\<close>

definition py_int :: "pyenv \<Rightarrow> scalar \<Rightarrow> int option" where
  "py_int env v = (case v of SInt i \<Rightarrow> Some i | SStr s \<Rightarrow> int_of_str env s)"

text \<open>
  The \<^verbatim>\<open>size\<close> of a dictionary entry with text \<open>txt\<close>: the sum with the default,
  clamped to the indices of \<open>sizes\<close>; whatever the \<^verbatim>\<open>try\<close> block raises is caught,
  reported, and gives the default size.
\<close>

definition entry_size_index :: "pyenv \<Rightarrow> fields \<Rightarrow> scalar \<Rightarrow> int \<Rightarrow> int run" where
  "entry_size_index env d txt defaultsize =
     (case entry_size d of
        None \<Rightarrow> ret defaultsize
      | Some v \<Rightarrow>
          (case py_int env v of
             Some k \<Rightarrow>
               ret (let sz = defaultsize + k;
                        sz = (if sz < 0 then 0 else sz)
                    in if sz \<ge> int (length sizes) then int (length sizes) - 1 else sz)
           | None \<Rightarrow> bnd (warn (UnrecognisedSize txt v)) (\<lambda>_. ret defaultsize)))"

definition make_entry :: "pyenv \<Rightarrow> entry \<Rightarrow> int \<Rightarrow> string \<Rightarrow> string \<Rightarrow> pyret run" where
  "make_entry env entry defaultsize hide style =
     (case entry of
        Dict d \<Rightarrow>
          (case entry_text d of
             None \<Rightarrow>
               bnd (warn (NoTextField d))
                 (\<lambda>_. lift_opt (make_entry_util env (SStr []) [] False style))
           | Some txt \<Rightarrow>
               bnd (entry_size_index env d txt defaultsize) (\<lambda>sz.
                 if entry_hidden d = Some True then
                   bnd (modify (\<lambda>s. s\<lparr>exists_hidden := True\<rparr>)) (\<lambda>_.
                     if hide = ''hide'' then
                       lift_opt (make_entry_util env (SStr []) [] False style)
                     else if hide = ''mark'' then
                       bnd (lift_res (py_index sizes sz))
                         (\<lambda>z. lift_opt (make_entry_util env txt z True style))
                     else if hide = ''ignore'' then
                       bnd (lift_res (py_index sizes sz))
                         (\<lambda>z. lift_opt (make_entry_util env txt z False style))
                     else raise (SystemExit ''This should not happen: bad hide parameter''))
                 else
                   bnd (lift_res (py_index sizes sz))
                     (\<lambda>z. lift_opt (make_entry_util env txt z False style))))
      | Bare v \<Rightarrow>
          bnd (lift_res (py_index sizes defaultsize))
            (\<lambda>z. lift_opt (make_entry_util env v z False style)))"

text \<open>
  Two readings of an entry that the statements below use: whether a dictionary entry with
  a text is marked as hidden, and the text that the entry stands for.
\<close>

definition flagged_hidden :: "entry \<Rightarrow> bool" where
  "flagged_hidden e =
     (case e of Dict d \<Rightarrow> entry_text d \<noteq> None \<and> entry_hidden d = Some True | Bare v \<Rightarrow> False)"

definition shown_text :: "entry \<Rightarrow> scalar" where
  "shown_text e =
     (case e of Bare v \<Rightarrow> v | Dict d \<Rightarrow> (case entry_text d of None \<Rightarrow> SStr [] | Some t \<Rightarrow> t))"

text \<open>An entry whose text holds no image for \<^verbatim>\<open>img2tex\<close> to translate.\<close>

definition plain_entry :: "entry \<Rightarrow> bool" where
  "plain_entry e \<longleftrightarrow> img_search (py_str (shown_text e)) = None"

section \<open>Substituting into a template\<close>

text \<open>
  The characters that \<^verbatim>\<open>\s\<close> matches, among the code points below 256: tab to
  carriage return, the four separators, the space, NEL and the no-break space.
\<close>

definition is_space :: "char \<Rightarrow> bool" where
  "is_space c \<longleftrightarrow>
     c \<in> set [CHR 0x09, CHR 0x0A, CHR 0x0B, CHR 0x0C, CHR 0x0D, CHR 0x1C, CHR 0x1D,
              CHR 0x1E, CHR 0x1F, CHR 0x20, CHR 0x85, CHR 0xA0]"

text \<open>
  \<^verbatim>\<open>re.sub(r'<:\s*(\S*)\s*:>', subtext, text)\<close>. After \<^verbatim>\<open><:\<close> and the blanks that
  follow, the group \<^verbatim>\<open>(\S*)\<close> is greedy: it first takes the whole run of non-blank
  characters and gives them back one at a time until the rest, blanks and \<^verbatim>\<open>:>\<close>, matches.
  \<open>closes t\<close> says that \<open>t\<close> is blanks and then \<^verbatim>\<open>:>\<close>; \<open>tok_back k run after\<close> tries the
  groups \<open>take k run\<close>, the longest first, and returns the group and the text after the
  match.
\<close>

definition closes :: "string \<Rightarrow> bool" where
  "closes t \<longleftrightarrow> take 2 (dropWhile is_space t) = '':>''"

fun tok_back :: "nat \<Rightarrow> string \<Rightarrow> string \<Rightarrow> (string \<times> string) option" where
  "tok_back 0 run after =
     (if closes (run @ after) then Some ([], drop 2 (dropWhile is_space (run @ after)))
      else None)"
| "tok_back (Suc k) run after =
     (if closes (drop (Suc k) run @ after)
      then Some (take (Suc k) run, drop 2 (dropWhile is_space (drop (Suc k) run @ after)))
      else tok_back k run after)"

text \<open>
  A match at the start of \<open>s\<close>: the matched text \<^verbatim>\<open>group(0)\<close>, the name \<^verbatim>\<open>group(1)\<close>
  and the text after the match.
\<close>

definition tok_match :: "string \<Rightarrow> (string \<times> string \<times> string) option" where
  "tok_match s =
     (case s of
        c1 # c2 # r \<Rightarrow>
          if c1 = CHR ''<'' \<and> c2 = CHR '':'' then
            (let r1 = dropWhile is_space r;
                 run = takeWhile (\<lambda>c. \<not> is_space c) r1;
                 after = dropWhile (\<lambda>c. \<not> is_space c) r1
             in case tok_back (length run) run after of
                  None \<Rightarrow> None
                | Some (name, rest) \<Rightarrow> Some (take (length s - length rest) s, name, rest))
          else None
      | _ \<Rightarrow> None)"

lemma tok_back_shorter:
  "tok_back k run after = Some (name, rest) \<Longrightarrow> length rest \<le> length run + length after"
proof (induction k)
  case 0
  then show ?case
    using length_dropWhile_le [of is_space "run @ after"] by (auto split: if_splits)
next
  case (Suc k)
  then show ?case
    using length_dropWhile_le [of is_space "drop (Suc k) run @ after"]
    by (auto split: if_splits)
qed

lemma tok_match_shorter:
  assumes "tok_match s = Some (whole, name, rest)"
  shows "length rest < length s"
proof -
  from assms obtain c1 c2 r where s: "s = c1 # c2 # r"
    by (auto simp: tok_match_def split: list.splits)
  let ?r1 = "dropWhile is_space r"
  let ?run = "takeWhile (\<lambda>c. \<not> is_space c) ?r1"
  let ?after = "dropWhile (\<lambda>c. \<not> is_space c) ?r1"
  from assms s have "tok_back (length ?run) ?run ?after = Some (name, rest)"
    by (auto simp: tok_match_def Let_def split: if_splits option.splits)
  then have "length rest \<le> length ?run + length ?after"
    by (rule tok_back_shorter)
  also have "\<dots> = length ?r1"
    by (metis length_append takeWhile_dropWhile_id)
  also have "\<dots> \<le> length r"
    by (rule length_dropWhile_le)
  finally show ?thesis using s by simp
qed

text \<open>
  The scan of \<^verbatim>\<open>re.sub\<close>: the leftmost match, then on from its end. \<^verbatim>\<open>subtext\<close>
  returns the substitution of a name that is in \<^verbatim>\<open>subs\<close>; for any other name it prints
  the message and returns \<^verbatim>\<open>None\<close>, for which \<^verbatim>\<open>re.sub\<close> puts nothing. The function
  returns the new text and the messages.
\<close>

function losub_scan :: "(string \<times> string) list \<Rightarrow> string \<Rightarrow> string \<times> diag list" where
  "losub_scan subs [] = ([], [])"
| "losub_scan subs (c # cs) =
     (case tok_match (c # cs) of
        Some (whole, name, rest) \<Rightarrow>
          (case map_of subs name of
             Some v \<Rightarrow> (v @ fst (losub_scan subs rest), snd (losub_scan subs rest))
           | None \<Rightarrow>
               (fst (losub_scan subs rest),
                UnrecognisedSubstitution whole # snd (losub_scan subs rest)))
      | None \<Rightarrow> (c # fst (losub_scan subs cs), snd (losub_scan subs cs)))"
  by pat_completeness auto
termination
  by (relation "measure (\<lambda>(subs, s). length s)") (auto dest: tok_match_shorter)

definition losub :: "string \<Rightarrow> (string \<times> string) list \<Rightarrow> string run" where
  "losub text subs =
     bnd (modify (\<lambda>s. s\<lparr>stderr := stderr s @ snd (losub_scan subs text)\<rparr>))
       (\<lambda>_. ret (fst (losub_scan subs text)))"

section \<open>The card functions\<close>

text \<open>
  What \<^verbatim>\<open>make_triangles\<close> and \<^verbatim>\<open>make_squares\<close> read from the layout file: for each
  shape the solution cards (each a list of references such as \<^verbatim>\<open>Q3\<close>), the direction
  of the base side of each solution position, and for each puzzle position the
  direction of the base side and that of the card number. A key may be missing from the
  layout (\<open>None\<close>): a layout of squares only has no key for the triangles. Reading a
  missing key, \<^verbatim>\<open>layout['...']\<close>, raises \<^verbatim>\<open>KeyError\<close>. The tables are taken to hold
  integers.
\<close>

record layout =
  triangleSolutionCards :: "string list list option"
  triangleSolutionOrientation :: "int list option"
  trianglePuzzleOrientation :: "(int \<times> int) list option"
  squareSolutionCards :: "string list list option"
  squareSolutionOrientation :: "int list option"
  squarePuzzleOrientation :: "(int \<times> int) list option"

definition layout_key :: "'a option \<Rightarrow> error + 'a" where
  "layout_key v = (case v of None \<Rightarrow> Inl KeyError | Some x \<Rightarrow> Inr x)"

text \<open>
  The body of the loop \<^verbatim>\<open>for entry in card\<close>. \<^verbatim>\<open>int(entry[1:])\<close> is evaluated
  first. The name \<^verbatim>\<open>printf\<close> of the last branch is not defined anywhere, so reaching
  the branch raises \<^verbatim>\<open>NameError\<close>; nothing is printed and nothing is appended.
\<close>

definition resolve_entry ::
  "pyenv \<Rightarrow> (entry \<times> entry) list \<Rightarrow> entry list \<Rightarrow> string \<Rightarrow> error + entry" where
  "resolve_entry env pairs edges entry =
     (case int_of_str env (drop 1 entry) of
        None \<Rightarrow> Inl ValueError
      | Some n \<Rightarrow>
          (let entrynum = n - 1
           in case entry of
                [] \<Rightarrow> Inl IndexError
              | c # _ \<Rightarrow>
                  if c = CHR ''Q'' then
                    (case py_index pairs entrynum of Inl e \<Rightarrow> Inl e | Inr p \<Rightarrow> Inr (fst p))
                  else if c = CHR ''A'' then
                    (case py_index pairs entrynum of Inl e \<Rightarrow> Inl e | Inr p \<Rightarrow> Inr (snd p))
                  else if c = CHR ''E'' then py_index edges entrynum
                  else Inl NameError))"

definition resolve_card ::
  "pyenv \<Rightarrow> (entry \<times> entry) list \<Rightarrow> entry list \<Rightarrow> string list \<Rightarrow> error + entry list" where
  "resolve_card env pairs edges crd = collect (map (resolve_entry env pairs edges) crd)"

definition resolve_cards ::
  "pyenv \<Rightarrow> (entry \<times> entry) list \<Rightarrow> entry list \<Rightarrow> string list list \<Rightarrow> error + entry list list"
  where
  "resolve_cards env pairs edges cards = collect (map (resolve_card env pairs edges) cards)"

text \<open>The two draws, as statements: each advances the count of draws.\<close>

definition draw_order :: "pyenv \<Rightarrow> nat \<Rightarrow> nat list run" where
  "draw_order env n s =
     Some (Inr (fst (shuffled_order env n (rng_pos s))),
           s\<lparr>rng_pos := snd (shuffled_order env n (rng_pos s))\<rparr>)"

definition draw_randint0 :: "pyenv \<Rightarrow> nat \<Rightarrow> int run" where
  "draw_randint0 env k s = Some (Inr (randint0 env k (rng_pos s)), s\<lparr>rng_pos := Suc (rng_pos s)\<rparr>)"

text \<open>\<^verbatim>\<open>xs[i]\<close> for an index that is not negative.\<close>

definition nth_res :: "'a list \<Rightarrow> nat \<Rightarrow> error + 'a" where
  "nth_res xs i = (if i < length xs then Inr (xs ! i) else Inl IndexError)"

text \<open>Dictionaries: \<^verbatim>\<open>d[k] = v\<close> and \<^verbatim>\<open>d[k]\<close>.\<close>

fun dict_set :: "(string \<times> string) list \<Rightarrow> string \<Rightarrow> string \<Rightarrow> (string \<times> string) list" where
  "dict_set [] k v = [(k, v)]"
| "dict_set ((k', v') # d) k v = (if k' = k then (k, v) # d else (k', v') # dict_set d k v)"

definition dict_get :: "(string \<times> string) list \<Rightarrow> string \<Rightarrow> error + string" where
  "dict_get d k = (case map_of d k of None \<Rightarrow> Inl KeyError | Some v \<Rightarrow> Inr v)"

text \<open>
  The two shapes. \<^verbatim>\<open>make_squares\<close> is, in the words of its docstring, very similar
  to \<^verbatim>\<open>make_triangles\<close>: the bodies of their loops differ in the number of sides, the
  angle of one rotation step, the names of the substitutions, and in the card numbers,
  which for squares go on after those of the triangles. The body is written once, with
  these as functions of the shape.
\<close>

datatype shape = Triangle | Square

definition sides :: "shape \<Rightarrow> nat" where
  "sides sh = (case sh of Triangle \<Rightarrow> 3 | Square \<Rightarrow> 4)"

definition puz_ring :: "shape \<Rightarrow> 'a list \<Rightarrow> int \<Rightarrow> error + 'a list" where
  "puz_ring sh = (case sh of Triangle \<Rightarrow> tri_ring | Square \<Rightarrow> sq_ring)"

definition number_angle :: "shape \<Rightarrow> int \<Rightarrow> int \<Rightarrow> int \<Rightarrow> int \<Rightarrow> int" where
  "number_angle sh = (case sh of Triangle \<Rightarrow> tri_angle | Square \<Rightarrow> sq_angle)"

definition solkey :: "shape \<Rightarrow> string" where
  "solkey sh = (case sh of Triangle \<Rightarrow> ''trisolcard'' | Square \<Rightarrow> ''sqsolcard'')"

definition puzkey :: "shape \<Rightarrow> string" where
  "puzkey sh = (case sh of Triangle \<Rightarrow> ''tripuzcard'' | Square \<Rightarrow> ''sqpuzcard'')"

text \<open>
  \<^verbatim>\<open>make_entry(card[k], size, hide, 'tikz')\<close> for the indices \<open>ks\<close> in turn, as the
  tuple of a substitution evaluates them.
\<close>

fun fmt_slots :: "pyenv \<Rightarrow> int \<Rightarrow> string \<Rightarrow> entry list \<Rightarrow> int list \<Rightarrow> pyret list run" where
  "fmt_slots env sz hide crd [] = ret []"
| "fmt_slots env sz hide crd (k # ks) =
     bnd (lift_res (py_index crd k)) (\<lambda>c.
     bnd (make_entry env c sz hide ''tikz'') (\<lambda>e.
     bnd (fmt_slots env sz hide crd ks) (\<lambda>es.
     ret (e # es))))"

text \<open>
  The value of a substitution \<^verbatim>\<open>('{%s}' * 5) % (...)\<close> (six for a square) for a card:
  its sides, then the card number with its size, then the angle.
\<close>

definition card_subst :: "pyenv \<Rightarrow> shape \<Rightarrow> int \<Rightarrow> string \<Rightarrow> entry list \<Rightarrow> string run" where
  "card_subst env sh sz hide crd =
     bnd (fmt_slots env sz hide crd (map int [0..<sides sh])) (\<lambda>es.
     bnd (lift_res (py_index sizes (max (sz - 2) 0))) (\<lambda>z.
     bnd (lift_res (py_index crd (int (sides sh)))) (\<lambda>num.
     bnd (lift_res (py_index crd (int (sides sh) + 1))) (\<lambda>ang.
     ret (concat (map (\<lambda>e. ''{'' @ fmt_ret e @ ''}'') es)
          @ ''{'' @ z @ '' '' @ fmt_entry env num @ ''}''
          @ ''{'' @ fmt_entry env ang @ ''}'')))))"

text \<open>
  One round of the loop \<^verbatim>\<open>for (i, solcard) in enumerate(...)\<close>, with \<open>off\<close> the number
  of triangle cards for a square and 0 for a triangle. \<open>card_at\<close> is the round from the
  assignment of the puzzle card on, with the position \<open>j\<close> and the rotation \<open>rot\<close> in
  hand. Both return the solution card as extended and the list of puzzle cards.
\<close>

definition card_at ::
  "pyenv \<Rightarrow> shape \<Rightarrow> nat \<Rightarrow> int list \<Rightarrow> (int \<times> int) list \<Rightarrow> int \<Rightarrow> int \<Rightarrow>
   nat \<Rightarrow> nat \<Rightarrow> int \<Rightarrow> entry list \<Rightarrow> entry list list \<Rightarrow> (entry list \<times> entry list list) run"
  where
  "card_at env sh off solorient puzorient puzzle_size solution_size i j rot solcard puzcards =
     bnd (lift_res (puz_ring sh solcard rot)) (\<lambda>ring.
     bnd (lift_res (nth_res puzorient j)) (\<lambda>pj.
     let puzcard = ring @ [Bare (SStr (cardnum (int j + int off + 1))), Bare (SInt (snd pj))]
     in
     bnd (lift_res (py_setitem puzcards j puzcard)) (\<lambda>puzcards'.
     bnd (lift_res (nth_res solorient i)) (\<lambda>so.
     let solcard' = solcard @ [Bare (SStr (cardnum (int j + int off + 1))),
                               Bare (SInt (number_angle sh (snd pj) so (fst pj) rot))]
     in
     bnd (card_subst env sh solution_size ''mark'' solcard') (\<lambda>v.
     bnd (modify (\<lambda>s. s\<lparr>dsubs := dict_set (dsubs s) (solkey sh @ str_nat (i + 1)) v\<rparr>)) (\<lambda>_.
     bnd (card_subst env sh puzzle_size ''hide'' puzcard) (\<lambda>w.
     bnd (modify (\<lambda>s. s\<lparr>dsubs := dict_set (dsubs s) (puzkey sh @ str_nat (j + 1)) w\<rparr>)) (\<lambda>_.
     ret (solcard', puzcards')))))))))"

definition card_step ::
  "pyenv \<Rightarrow> shape \<Rightarrow> nat \<Rightarrow> int list \<Rightarrow> (int \<times> int) list \<Rightarrow> int \<Rightarrow> int \<Rightarrow> nat list \<Rightarrow>
   nat \<Rightarrow> entry list \<Rightarrow> entry list list \<Rightarrow> (entry list \<times> entry list list) run" where
  "card_step env sh off solorient puzorient puzzle_size solution_size order i solcard puzcards =
     bnd (lift_res (nth_res order i)) (\<lambda>j.
     bnd (draw_randint0 env (sides sh - 1)) (\<lambda>rot.
     card_at env sh off solorient puzorient puzzle_size solution_size i j rot solcard puzcards))"

fun card_loop ::
  "pyenv \<Rightarrow> shape \<Rightarrow> nat \<Rightarrow> int list \<Rightarrow> (int \<times> int) list \<Rightarrow> int \<Rightarrow> int \<Rightarrow> nat list \<Rightarrow>
   nat \<Rightarrow> entry list list \<Rightarrow> entry list list \<Rightarrow> (entry list list \<times> entry list list) run" where
  "card_loop env sh off solorient puzorient puzzle_size solution_size order i [] puzcards =
     ret ([], puzcards)"
| "card_loop env sh off solorient puzorient puzzle_size solution_size order i (solcard # rest) puzcards =
     bnd (card_step env sh off solorient puzorient puzzle_size solution_size order i solcard puzcards)
       (\<lambda>(solcard', puzcards').
     bnd (card_loop env sh off solorient puzorient puzzle_size solution_size order (Suc i) rest puzcards')
       (\<lambda>(rest', puzcards'').
     ret (solcard' # rest', puzcards'')))"

text \<open>
  The row of a puzzle card for Markdown: \<^verbatim>\<open>row += make_entry(entry, 0, 'hide', 'md') + '|'\<close>
  for the entries of \<^verbatim>\<open>t[0:n]\<close>. Adding \<^verbatim>\<open>None\<close> and a string raises \<^verbatim>\<open>TypeError\<close>.
\<close>

fun md_row :: "pyenv \<Rightarrow> string \<Rightarrow> entry list \<Rightarrow> string run" where
  "md_row env row [] = ret row"
| "md_row env row (entry # es) =
     bnd (make_entry env entry 0 ''hide'' ''md'') (\<lambda>r.
       case r of
         NoneVal \<Rightarrow> raise TypeError
       | StrVal x \<Rightarrow> md_row env (row @ x @ ''|'') es)"

text \<open>\<^verbatim>\<open>dsubsmd[k] += v\<close>.\<close>

definition md_append :: "string \<Rightarrow> string \<Rightarrow> unit run" where
  "md_append k v =
     bnd (\<lambda>s. lift_res (dict_get (dsubsmd s) k) s) (\<lambda>old.
     modify (\<lambda>s. s\<lparr>dsubsmd := dict_set (dsubsmd s) k (old @ v)\<rparr>))"

definition md_default :: "string \<Rightarrow> unit run" where
  "md_default k =
     modify (\<lambda>s. if k \<in> fst ` set (dsubsmd s) then s else s\<lparr>dsubsmd := dict_set (dsubsmd s) k []\<rparr>)"

fun md_rows :: "pyenv \<Rightarrow> shape \<Rightarrow> entry list list \<Rightarrow> unit run" where
  "md_rows env sh [] = ret ()"
| "md_rows env sh (t # ts) =
     bnd (md_row env ''|'' (take (sides sh) t)) (\<lambda>row.
     bnd (case sh of
            Triangle \<Rightarrow>
              bnd (md_append ''puzcards3'' (row @ [CHR 0x0A])) (\<lambda>_.
              md_append ''puzcards4'' (row @ '' &nbsp; |'' @ [CHR 0x0A]))
          | Square \<Rightarrow> md_append ''puzcards4'' (row @ [CHR 0x0A])) (\<lambda>_.
     md_rows env sh ts))"

text \<open>
  The cards of a shape, from the resolved solution cards to the two lists of cards: the
  order is drawn, the list of puzzle cards is \<^verbatim>\<open>[[]] * n\<close>, and the loop runs. The result
  is the order, the solution cards and the puzzle cards.
\<close>

definition place_cards ::
  "pyenv \<Rightarrow> shape \<Rightarrow> nat \<Rightarrow> int list \<Rightarrow> (int \<times> int) list \<Rightarrow> int \<Rightarrow> int \<Rightarrow> nat \<Rightarrow>
   entry list list \<Rightarrow> (nat list \<times> entry list list \<times> entry list list) run" where
  "place_cards env sh off solorient puzorient puzzle_size solution_size n solcards =
     bnd (draw_order env n) (\<lambda>order.
     bnd (card_loop env sh off solorient puzorient puzzle_size solution_size order 0 solcards
            (replicate n [])) (\<lambda>(solcards', puzcards).
     ret (order, solcards', puzcards)))"

text \<open>
  \<^verbatim>\<open>make_triangles(data, layout, pairs, edges, dsubs, dsubsmd)\<close>. The two text sizes are
  what \<^verbatim>\<open>getopt\<close> finds for \<^verbatim>\<open>puzzleTextSize\<close> and \<^verbatim>\<open>solutionTextSize\<close> in the data
  and the layout; the two dictionaries are in the state.
\<close>

definition make_triangles ::
  "pyenv \<Rightarrow> int \<Rightarrow> int \<Rightarrow> layout \<Rightarrow> (entry \<times> entry) list \<Rightarrow> entry list \<Rightarrow> unit run" where
  "make_triangles env puzzle_size solution_size layout pairs edges =
     bnd (lift_res (layout_key (triangleSolutionCards layout))) (\<lambda>specs.
     let num_triangle_cards = length specs
     in
     bnd (lift_res (resolve_cards env pairs edges specs)) (\<lambda>trianglesolcard.
     bnd (lift_res (layout_key (triangleSolutionOrientation layout))) (\<lambda>trianglesolorient.
     bnd (lift_res (layout_key (trianglePuzzleOrientation layout))) (\<lambda>trianglepuzorient.
     bnd (place_cards env Triangle 0 trianglesolorient trianglepuzorient
            puzzle_size solution_size num_triangle_cards trianglesolcard)
       (\<lambda>(triangleorder, solcards, trianglepuzcard).
     bnd (md_default ''puzcards3'') (\<lambda>_.
     bnd (md_default ''puzcards4'') (\<lambda>_.
     md_rows env Triangle trianglepuzcard)))))))"

text \<open>
  \<^verbatim>\<open>make_squares\<close> reads the number of triangle cards first, from the key
  \<^verbatim>\<open>triangleSolutionCards\<close>, then the square cards.
\<close>

definition make_squares ::
  "pyenv \<Rightarrow> int \<Rightarrow> int \<Rightarrow> layout \<Rightarrow> (entry \<times> entry) list \<Rightarrow> entry list \<Rightarrow> unit run" where
  "make_squares env puzzle_size solution_size layout pairs edges =
     bnd (lift_res (layout_key (triangleSolutionCards layout))) (\<lambda>tspecs.
     bnd (lift_res (layout_key (squareSolutionCards layout))) (\<lambda>specs.
     let num_triangle_cards = length tspecs;
         num_square_cards = length specs
     in
     bnd (lift_res (resolve_cards env pairs edges specs)) (\<lambda>squaresolcard.
     bnd (lift_res (layout_key (squareSolutionOrientation layout))) (\<lambda>squaresolorient.
     bnd (lift_res (layout_key (squarePuzzleOrientation layout))) (\<lambda>squarepuzorient.
     bnd (place_cards env Square num_triangle_cards squaresolorient squarepuzorient
            puzzle_size solution_size num_square_cards squaresolcard)
       (\<lambda>(squareorder, solcards, squarepuzcard).
     bnd (md_default ''puzcards4'') (\<lambda>_.
     md_rows env Square squarepuzcard)))))))"

text \<open>
  What it is for \<open>puzcard\<close> to be the solution card \<open>solcard\<close> placed at puzzle
  position \<open>j\<close>: its sides are those of \<open>solcard\<close> under one of the rotations of the
  shape, followed by the card number of the position and the angle of the number there.
\<close>

definition is_piece ::
  "shape \<Rightarrow> nat \<Rightarrow> (int \<times> int) list \<Rightarrow> entry list \<Rightarrow> nat \<Rightarrow> entry list \<Rightarrow> bool" where
  "is_piece sh off puzorient solcard j puzcard \<longleftrightarrow>
     (\<exists>rot \<in> {0..<int (sides sh)}.
        case puz_ring sh solcard rot of
          Inl e \<Rightarrow> False
        | Inr ring \<Rightarrow>
            puzcard = ring @ [Bare (SStr (cardnum (int j + int off + 1))),
                              Bare (SInt (snd (puzorient ! j)))])"

section \<open>A run to evaluate\<close>

text \<open>
  \<^verbatim>\<open>int\<close> on a string. The blanks it strips at both ends are fewer than those of
  \<^verbatim>\<open>\s\<close>: the four separators from U+001C to U+001F stay and make the string invalid.
  A sign may come first, and what is left has to be decimal digits, which single
  underscores may separate; more than 4300 digits are refused.
\<close>

definition is_int_space :: "char \<Rightarrow> bool" where
  "is_int_space c \<longleftrightarrow>
     c \<in> set [CHR 0x09, CHR 0x0A, CHR 0x0B, CHR 0x0C, CHR 0x0D, CHR 0x20, CHR 0x85, CHR 0xA0]"

definition strip :: "string \<Rightarrow> string" where
  "strip s = rev (dropWhile is_int_space (rev (dropWhile is_int_space s)))"

definition is_digit :: "char \<Rightarrow> bool" where
  "is_digit c \<longleftrightarrow> c \<in> set ''0123456789''"

fun grouped :: "string \<Rightarrow> bool" where
  "grouped [] = False"
| "grouped [c] = is_digit c"
| "grouped (c # d # r) = (is_digit c \<and> (if d = CHR ''_'' then grouped r else grouped (d # r)))"

definition dec_nat :: "string \<Rightarrow> nat" where
  "dec_nat s = foldl (\<lambda>a c. 10 * a + (of_char c - 48)) 0 (filter is_digit s)"

definition dec_digits :: "string \<Rightarrow> int option" where
  "dec_digits s =
     (if grouped s \<and> length (filter is_digit s) \<le> 4300 then Some (int (dec_nat s)) else None)"

definition dec_int :: "string \<Rightarrow> int option" where
  "dec_int s =
     (case strip s of
        [] \<Rightarrow> None
      | c # r \<Rightarrow>
          if c = CHR ''-'' then map_option uminus (dec_digits r)
          else if c = CHR ''+'' then dec_digits r
          else dec_digits (c # r))"

text \<open>
  The library as Python 3.11 has it, for a generator that yields \<open>g\<close>. Every template
  that \<^verbatim>\<open>img2tex\<close> builds starts with \<^verbatim>\<open>\image\<close>, and Python from 3.7 on rejects the
  escape \<^verbatim>\<open>\i\<close> in a template with \<^verbatim>\<open>re.error\<close>. The string of a dictionary is not
  modelled and left empty: it is printed only for a card with more references than its
  shape has sides, and no run evaluated below has one.
\<close>

definition python :: "(nat \<Rightarrow> nat) \<Rightarrow> pyenv" where
  "python g =
     \<lparr>rand_raw = g, int_of_str = dec_int, re_expand = (\<lambda>template m. None),
      dict_str = (\<lambda>d. [])\<rparr>"

text \<open>A generator given by its first raw values; it yields 0 afterwards.\<close>

definition raw_of :: "nat list \<Rightarrow> nat \<Rightarrow> nat" where
  "raw_of xs p = (if p < length xs then xs ! p else 0)"

text \<open>
  The state in which \<^verbatim>\<open>generate_jigsaw\<close> starts the card functions when no table is
  made: nothing drawn, nothing printed, \<^verbatim>\<open>exists_hidden = False\<close>, and \<^verbatim>\<open>dsubs\<close> with the
  title only.
\<close>

definition start :: state where
  "start = \<lparr>rng_pos = 0, stderr = [], exists_hidden = False, dsubs = [(''title'', [])], dsubsmd = []\<rparr>"

text \<open>
  A puzzle of two triangles and a square. The second question is hidden and larger than
  the rest, the first answer is a number, and one edge is blank. The generator yields
  0, 2, 0: for the triangles, drawn first, the shuffle swaps the two positions, the first
  card is rotated twice and the second is not rotated.
\<close>

definition ex_env :: pyenv where
  "ex_env = python (raw_of [0, 2, 0])"

definition ex_layout :: layout where
  "ex_layout =
     \<lparr>triangleSolutionCards = Some [[''Q1'', ''A1'', ''E1''], [''Q2'', ''A2'', ''E2'']],
      triangleSolutionOrientation = Some [0, 180],
      trianglePuzzleOrientation = Some [(0, 0), (180, 180)],
      squareSolutionCards = Some [[''Q1'', ''A2'', ''E1'', ''E2'']],
      squareSolutionOrientation = Some [90],
      squarePuzzleOrientation = Some [(0, 90)]\<rparr>"

definition ex_pairs :: "(entry \<times> entry) list" where
  "ex_pairs =
     [(Bare (SStr ''2+2''), Bare (SInt 4)),
      (Dict \<lparr>entry_text = Some (SStr ''x''), entry_size = Some (SInt 7), entry_hidden = Some True\<rparr>,
       Bare (SStr ''y''))]"

definition ex_edges :: "entry list" where
  "ex_edges = [Bare (SStr ''e1''), Bare (SStr [])]"

text \<open>
  The solution cards of the triangles and of the square as the two functions resolve
  them.
\<close>

definition ex_cards :: "entry list list" where
  "ex_cards =
     [[Bare (SStr ''2+2''), Bare (SInt 4), Bare (SStr ''e1'')],
      [Dict \<lparr>entry_text = Some (SStr ''x''), entry_size = Some (SInt 7), entry_hidden = Some True\<rparr>,
       Bare (SStr ''y''), Bare (SStr [])]]"

definition ex_square_cards :: "entry list list" where
  "ex_square_cards = [[Bare (SStr ''2+2''), Bare (SStr ''y''), Bare (SStr ''e1''), Bare (SStr [])]]"

text \<open>
  The same puzzle with orientation tables that do not match the number of cards: one
  entry too few for the puzzle positions of the triangles and for the solution positions
  of the squares, and one entry too many in both tables of the triangles.
\<close>

definition ex_short :: layout where
  "ex_short =
     ex_layout\<lparr>trianglePuzzleOrientation := Some [(0, 0)], squareSolutionOrientation := Some []\<rparr>"

definition ex_long :: layout where
  "ex_long =
     ex_layout\<lparr>triangleSolutionOrientation := Some [0, 180, 90],
               trianglePuzzleOrientation := Some [(0, 0), (180, 180), (90, 90)]\<rparr>"

text \<open>A statement that makes no draw: it leaves the count of draws as it finds it.\<close>

definition keeps_rng :: "'a run \<Rightarrow> bool" where
  "keeps_rng m \<longleftrightarrow> (\<forall>s r s'. m s = Some (r, s') \<longrightarrow> rng_pos s' = rng_pos s)"

section \<open>The shuffle is a permutation\<close>

lemma shuffle_loop_mset:
  "k < length x \<Longrightarrow> mset (fst (shuffle_loop g k x p)) = mset x"
proof (induction k arbitrary: x p)
  case 0
  then show ?case by simp
next
  case (Suc k)
  let ?j = "randbelow g p (Suc k + 1)"
  have j: "?j < length x"
    using Suc.prems by (simp add: randbelow_def) (meson less_Suc_eq_le less_le_trans mod_less_divisor not_less zero_less_Suc)
  let ?x = "x[Suc k := x ! ?j, ?j := x ! Suc k]"
  have "mset ?x = mset x"
    using Suc.prems j by (simp add: mset_swap)
  moreover have "k < length ?x"
    using Suc.prems by simp
  ultimately show ?case
    using Suc.IH [of ?x "Suc p"] by (simp add: Let_def)
qed

lemma shuffle_loop_draws: "snd (shuffle_loop g k x p) = p + k"
  by (induction k arbitrary: x p) (simp_all add: Let_def)

lemma shuffle_mset: "mset (fst (shuffle g x p)) = mset x"
proof (cases x)
  case Nil
  then show ?thesis by (simp add: shuffle_def)
next
  case (Cons a as)
  then show ?thesis by (simp add: shuffle_def shuffle_loop_mset)
qed

lemma shuffled_order_mset: "mset (fst (shuffled_order env n p)) = mset [0..<n]"
  by (simp add: shuffled_order_def shuffle_mset)

lemma shuffled_order_length: "length (fst (shuffled_order env n p)) = n"
  using shuffled_order_mset [of env n p] by (metis length_upt mset_eq_length minus_nat.diff_0)

lemma shuffled_order_set: "set (fst (shuffled_order env n p)) = {0..<n}"
  using shuffled_order_mset [of env n p] by (metis mset_eq_setD set_upt)

lemma shuffled_order_distinct: "distinct (fst (shuffled_order env n p))"
  using shuffled_order_mset [of env n p] by (metis distinct_upt mset_eq_imp_distinct_iff)

lemma shuffled_order_draws: "snd (shuffled_order env n p) = p + (n - 1)"
  by (simp add: shuffled_order_def shuffle_def shuffle_loop_draws)

section \<open>Rotating a ring\<close>

lemma py_index_nat: "0 \<le> i \<Longrightarrow> i < int (length xs) \<Longrightarrow> py_index xs i = Inr (xs ! nat i)"
  by (simp add: py_index_def)

lemma tri_ring_value:
  assumes "length t = 3" "0 \<le> r" "r < 3"
  shows "tri_ring t r = Inr [t ! nat ((3 - r) mod 3), t ! nat ((4 - r) mod 3), t ! nat ((5 - r) mod 3)]"
proof -
  have "0 \<le> (3 - r) mod 3" "(3 - r) mod 3 < 3" "0 \<le> (4 - r) mod 3" "(4 - r) mod 3 < 3"
    "0 \<le> (5 - r) mod 3" "(5 - r) mod 3 < 3" by simp_all
  with assms(1) show ?thesis by (simp add: tri_ring_def py_index_nat)
qed

lemma sq_ring_value:
  assumes "length q = 4" "0 \<le> r" "r < 4"
  shows "sq_ring q r = Inr [q ! nat ((4 - r) mod 4), q ! nat ((5 - r) mod 4),
                            q ! nat ((6 - r) mod 4), q ! nat ((7 - r) mod 4)]"
proof -
  have "0 \<le> (4 - r) mod 4" "(4 - r) mod 4 < 4" "0 \<le> (5 - r) mod 4" "(5 - r) mod 4 < 4"
    "0 \<le> (6 - r) mod 4" "(6 - r) mod 4 < 4" "0 \<le> (7 - r) mod 4" "(7 - r) mod 4 < 4" by simp_all
  with assms(1) show ?thesis by (simp add: sq_ring_def py_index_nat)
qed

lemma slot_index:
  assumes "0 \<le> r" "r < int n" "0 < n"
  shows "nat ((int n + int k - r) mod int n) = (k + n - nat r) mod n"
proof -
  have "int n + int k - r = int (k + n - nat r)" using assms by simp
  then show ?thesis by (simp add: nat_mod_as_int del: of_nat_diff of_nat_add)
qed

text \<open>
  Claim C2. For a solution ring of the length of its shape and a rotation \<open>rot\<close> from 0
  up to that length, slot \<open>k\<close> of the puzzle ring is slot \<open>(k + length - rot) mod length\<close>
  of the solution ring; the triangle slots are \<^verbatim>\<open>solution[(3-rot)%3]\<close>,
  \<^verbatim>\<open>solution[(4-rot)%3]\<close>, \<^verbatim>\<open>solution[(5-rot)%3]\<close>, the square slots
  \<^verbatim>\<open>solution[(4-rot)%4]\<close> to \<^verbatim>\<open>solution[(7-rot)%4]\<close>.
\<close>

theorem puzzle_ring_rotation:
  assumes "length t = 3" "0 \<le> r3" "r3 < 3" "length q = 4" "0 \<le> r4" "r4 < 4"
  shows "tri_ring t r3 = Inr [t ! nat ((3 - r3) mod 3), t ! nat ((4 - r3) mod 3), t ! nat ((5 - r3) mod 3)]
       \<and> (\<forall>p k. tri_ring t r3 = Inr p \<and> k < 3 \<longrightarrow> p ! k = t ! ((k + 3 - nat r3) mod 3))
       \<and> sq_ring q r4 = Inr [q ! nat ((4 - r4) mod 4), q ! nat ((5 - r4) mod 4),
                             q ! nat ((6 - r4) mod 4), q ! nat ((7 - r4) mod 4)]
       \<and> (\<forall>p k. sq_ring q r4 = Inr p \<and> k < 4 \<longrightarrow> p ! k = q ! ((k + 4 - nat r4) mod 4))"
proof -
  note tv = tri_ring_value [OF assms(1-3)]
  note sv = sq_ring_value [OF assms(4-6)]
  have t0: "nat ((3 - r3) mod 3) = (0 + 3 - nat r3) mod 3"
    using slot_index [of r3 3 0] assms(2,3) by simp
  have t1: "nat ((4 - r3) mod 3) = (1 + 3 - nat r3) mod 3"
    using slot_index [of r3 3 1] assms(2,3) by simp
  have t2: "nat ((5 - r3) mod 3) = (2 + 3 - nat r3) mod 3"
    using slot_index [of r3 3 2] assms(2,3) by simp
  have q0: "nat ((4 - r4) mod 4) = (0 + 4 - nat r4) mod 4"
    using slot_index [of r4 4 0] assms(5,6) by simp
  have q1: "nat ((5 - r4) mod 4) = (1 + 4 - nat r4) mod 4"
    using slot_index [of r4 4 1] assms(5,6) by simp
  have q2: "nat ((6 - r4) mod 4) = (2 + 4 - nat r4) mod 4"
    using slot_index [of r4 4 2] assms(5,6) by simp
  have q3: "nat ((7 - r4) mod 4) = (3 + 4 - nat r4) mod 4"
    using slot_index [of r4 4 3] assms(5,6) by simp
  have tk: "p ! k = t ! ((k + 3 - nat r3) mod 3)" if "tri_ring t r3 = Inr p" "k < 3" for p k
  proof -
    from that(1) tv have p: "p = [t ! ((0 + 3 - nat r3) mod 3), t ! ((1 + 3 - nat r3) mod 3),
        t ! ((2 + 3 - nat r3) mod 3)]"
      unfolding t0 t1 t2 by simp
    from that(2) consider "k = 0" | "k = 1" | "k = 2" by arith
    then show ?thesis
      by cases (simp_all add: p)
  qed
  have qk: "p ! k = q ! ((k + 4 - nat r4) mod 4)" if "sq_ring q r4 = Inr p" "k < 4" for p k
  proof -
    from that(1) sv have p: "p = [q ! ((0 + 4 - nat r4) mod 4), q ! ((1 + 4 - nat r4) mod 4),
        q ! ((2 + 4 - nat r4) mod 4), q ! ((3 + 4 - nat r4) mod 4)]"
      unfolding q0 q1 q2 q3 by simp
    from that(2) consider "k = 0" | "k = 1" | "k = 2" | "k = 3" by arith
    then show ?thesis
      by cases (simp_all add: p)
  qed
  from tv sv tk qk show ?thesis by blast
qed

theorem puzzle_ring_rotation_witness:
  "tri_ring [''a'', ''b'', ''c''] 1 = Inr [''c'', ''a'', ''b'']
   \<and> sq_ring [''a'', ''b'', ''c'', ''d''] 3 = Inr [''b'', ''c'', ''d'', ''a'']"
  using puzzle_ring_rotation [of "[''a'', ''b'', ''c'']" 1 "[''a'', ''b'', ''c'', ''d'']" 3]
  by simp

theorem scenario_a_counterexample:
  "sq_ring [''Q1'', ''A1'', ''E1'', ''E2''] 1 \<noteq> Inr [''A1'', ''E1'', ''E2'', ''Q1'']"
  by (simp add: sq_ring_def py_index_def)

text \<open>
  Claim C3, as amended. For the square ring \<^verbatim>\<open>["Q1","A1","E1","E2"]\<close> the rotation
  \<open>rot = 1\<close> gives the puzzle ring \<^verbatim>\<open>["E2","Q1","A1","E1"]\<close>: the first puzzle slot is
  \<^verbatim>\<open>solcard[(4 - 1) % 4]\<close>, the last entry of the solution ring. The ring
  \<^verbatim>\<open>["A1","E1","E2","Q1"]\<close> of the claim is not what the code builds.
\<close>

theorem scenario_a_rotation:
  "sq_ring [''Q1'', ''A1'', ''E1'', ''E2''] 1 = Inr [''E2'', ''Q1'', ''A1'', ''E1'']"
  by (simp add: sq_ring_def py_index_def)

section \<open>The angle of the card number\<close>

theorem angle_counterexample:
  "tri_angle 180 0 0 0 = - 180 \<and> \<not> (- 180 < tri_angle 180 0 0 0 \<and> tri_angle 180 0 0 0 \<le> 180)"
  by (simp add: tri_angle_def)

text \<open>
  Claim C4, as amended. For all integer angles of the orientation tables and every
  rotation, the angle of the card number on a solution card lies in the interval from
  -180 (included) to 180 (excluded): \<^verbatim>\<open>(angle + 180) % 360 - 180\<close> gives -180, not 180,
  for an angle of 180. The counterexample is a triangle at a puzzle position whose number
  stands at 180 degrees, both base sides at 0, not rotated.
\<close>

theorem angle_range:
  "- 180 \<le> tri_angle pn so pb rot \<and> tri_angle pn so pb rot < 180 \<and>
   - 180 \<le> sq_angle pn so pb rot \<and> sq_angle pn so pb rot < 180"
  by (simp add: tri_angle_def sq_angle_def Let_def)

section \<open>Properties of the formatting of an entry\<close>

lemmas run_defs = bnd_def ret_def raise_def lift_res_def lift_opt_def modify_def warn_def

lemma entry_size_index_cases:
  "\<exists>k ds. entry_size_index env d txt dsz s = Some (Inr k, s\<lparr>stderr := stderr s @ ds\<rparr>) \<and> (k = dsz \<or> (0 \<le> k \<and> k < 10))"
proof (cases "entry_size d")
  case None
  then have "entry_size_index env d txt dsz s = Some (Inr dsz, s\<lparr>stderr := stderr s @ []\<rparr>)"
    by (simp add: entry_size_index_def run_defs)
  then show ?thesis by blast
next
  case (Some v)
  show ?thesis
  proof (cases "py_int env v")
    case None
    with Some have "entry_size_index env d txt dsz s = Some (Inr dsz, s\<lparr>stderr := stderr s @ [UnrecognisedSize txt v]\<rparr>)"
      by (simp add: entry_size_index_def run_defs)
    then show ?thesis by blast
  next
    case (Some k)
    let ?k = "(let sz = dsz + k; sz = (if sz < 0 then 0 else sz)
                    in if sz \<ge> int (length sizes) then int (length sizes) - 1 else sz)"
    from Some \<open>entry_size d = Some v\<close>
    have "entry_size_index env d txt dsz s = Some (Inr ?k, s\<lparr>stderr := stderr s @ []\<rparr>)"
      by (simp add: entry_size_index_def run_defs)
    moreover have "0 \<le> ?k \<and> ?k < 10" by (simp add: Let_def sizes_def)
    ultimately show ?thesis by blast
  qed
qed

lemma util_md_blank: "make_entry_util env (SStr []) z False ''md'' = Some (Inr (StrVal '' (BLANK) ''))"
  by (simp add: make_entry_util_def truthy_def)

text \<open>
  Claim C10. An entry with \<^verbatim>\<open>hidden\<close> true that is formatted for Markdown with
  \<^verbatim>\<open>hide = 'hide'\<close> gives the string \<^verbatim>\<open>" (BLANK) "\<close>, whatever its text, its size and
  the default size, which is also what the empty text gives in the call
  \<^verbatim>\<open>make_entry(entry, 0, 'hide', 'md')\<close> of the puzzle rows: the two cannot be told apart.
\<close>

theorem hidden_md_blank:
  assumes "entry_hidden d = Some True"
  shows "map_option fst (make_entry env (Dict d) dsz ''hide'' ''md'' s) = Some (Inr (StrVal '' (BLANK) ''))
       \<and> map_option fst (make_entry env (Bare (SStr [])) 0 ''hide'' ''md'' s) = Some (Inr (StrVal '' (BLANK) ''))"
proof
  show "map_option fst (make_entry env (Dict d) dsz ''hide'' ''md'' s) = Some (Inr (StrVal '' (BLANK) ''))"
  proof (cases "entry_text d")
    case None
    then show ?thesis by (simp add: make_entry_def run_defs util_md_blank)
  next
    case (Some tx)
    obtain k ds where "entry_size_index env d tx dsz s = Some (Inr k, s\<lparr>stderr := stderr s @ ds\<rparr>)"
      using entry_size_index_cases by blast
    with Some assms show ?thesis by (simp add: make_entry_def run_defs util_md_blank)
  qed
  show "map_option fst (make_entry env (Bare (SStr [])) 0 ''hide'' ''md'' s) = Some (Inr (StrVal '' (BLANK) ''))"
    by (simp add: make_entry_def run_defs util_md_blank py_index_def sizes_def)
qed


theorem hidden_md_blank_witness:
  "map_option fst
     (make_entry (python (raw_of []))
        (Dict \<lparr>entry_text = Some (SStr ''secret''), entry_size = Some (SInt 2), entry_hidden = Some True\<rparr>)
        4 ''hide'' ''md'' start)
   = Some (Inr (StrVal '' (BLANK) ''))
   \<and> map_option fst (make_entry (python (raw_of [])) (Bare (SStr [])) 0 ''hide'' ''md'' start)
   = Some (Inr (StrVal '' (BLANK) ''))"
  using hidden_md_blank [of "\<lparr>entry_text = Some (SStr ''secret''), entry_size = Some (SInt 2), entry_hidden = Some True\<rparr>"
      "python (raw_of [])" 4 start]
  by simp

lemma lift_opt_state: "lift_opt r s = Some (x, s') \<Longrightarrow> s' = s"
  by (simp add: lift_opt_def split: option.splits)

lemma index_then_util_state:
  "bnd (lift_res (py_index sizes k)) (\<lambda>z. lift_opt (f z)) s = Some (x, s') \<Longrightarrow> s' = s"
  by (auto simp: bnd_def lift_res_def lift_opt_def split: option.splits sum.splits)

lemma make_entry_final_state:
  assumes "make_entry env e dsz hide style s = Some (r, s')"
  shows "\<exists>ds. s' = s\<lparr>stderr := stderr s @ ds,
                      exists_hidden := exists_hidden s \<or> flagged_hidden e\<rparr>"
proof (cases e)
  case (Bare v)
  with assms have "s' = s"
    by (simp add: make_entry_def index_then_util_state)
  with Bare show ?thesis by (auto simp: flagged_hidden_def intro: exI [of _ "[]"])
next
  case (Dict d)
  show ?thesis
  proof (cases "entry_text d")
    case None
    with Dict assms have "s' = s\<lparr>stderr := stderr s @ [NoTextField d]\<rparr>"
      by (auto simp: make_entry_def bnd_def warn_def modify_def dest: lift_opt_state)
    with Dict None show ?thesis by (auto simp: flagged_hidden_def intro: exI [of _ "[NoTextField d]"])
  next
    case (Some tx)
    obtain k ds where k: "entry_size_index env d tx dsz s = Some (Inr k, s\<lparr>stderr := stderr s @ ds\<rparr>)"
      using entry_size_index_cases by blast
    let ?s1 = "s\<lparr>stderr := stderr s @ ds\<rparr>"
    show ?thesis
    proof (cases "entry_hidden d = Some True")
      case True
      let ?s2 = "?s1\<lparr>exists_hidden := True\<rparr>"
      from assms Dict Some k True have "s' = ?s2"
        by (auto simp: make_entry_def bnd_def [of "entry_size_index env d tx dsz"] bnd_def [of "modify f" for f] modify_def raise_def
            split: if_splits dest: lift_opt_state index_then_util_state)
      with Dict Some True show ?thesis by (auto simp: flagged_hidden_def intro: exI [of _ ds])
    next
      case False
      from assms Dict Some k False have "s' = ?s1"
        by (auto simp: make_entry_def bnd_def [of "entry_size_index env d tx dsz"]
            dest: index_then_util_state)
      with Dict Some False show ?thesis by (auto simp: flagged_hidden_def intro: exI [of _ ds])
    qed
  qed
qed

text \<open>
  The flag after a call of \<^verbatim>\<open>make_entry\<close> that returns or raises, as the code has it:
  \<^verbatim>\<open>exists_hidden\<close> is true if it was true before or if the entry is a dictionary with
  a text and a true \<^verbatim>\<open>hidden\<close>, and false otherwise. An entry that is not marked as
  hidden never sets it; for one that is, the assignment comes before \<^verbatim>\<open>hide\<close> is tested.
\<close>

lemma make_entry_flag:
  assumes "make_entry env e dsz hide style s = Some (r, s')"
  shows "exists_hidden s' = (exists_hidden s \<or> flagged_hidden e)"
  using make_entry_final_state [OF assms] by auto

lemma img2tex_loop_error:
  assumes "img2tex_loop env t = Some r"
  shows "r = Inl ReError \<or> (\<exists>u. r = Inr u)"
proof (rule img2tex_loop.raw_induct [where P = "\<lambda>env t r. r = Inl ReError \<or> (\<exists>u. r = Inr u)", OF _ assms])
  fix f env t r
  assume IH: "\<And>env t r. f env t = Some r \<Longrightarrow> r = Inl ReError \<or> (\<exists>u. r = Inr u)"
    and eq: "(case img_search t of
        None \<Rightarrow> Some (Inr t)
      | Some (pre, caption, img, rest) \<Rightarrow>
          (case re_expand env
                  (if caption \<noteq> [] then bs @ ''imagecap{'' @ img @ ''}{'' @ caption @ ''}''
                   else bs @ ''image{'' @ img @ ''}'')
                  (''!['' @ caption @ '']('' @ img @ '')'', caption, img) of
             None \<Rightarrow> Some (Inl ReError)
           | Some new \<Rightarrow> f env (pre @ new @ rest))) = Some r"
  show "r = Inl ReError \<or> (\<exists>u. r = Inr u)"
    using eq IH by (auto split: option.splits prod.splits)
qed

lemma make_entry_util_error:
  "make_entry_util env t z m style = Some (Inl e) \<Longrightarrow> e = ReError"
  by (auto simp: make_entry_util_def map_str_def img2tex_def split: if_splits option.splits sum.splits dest: img2tex_loop_error)

lemma img2tex_plain: "img_search (py_str t) = None \<Longrightarrow> img2tex env t = Some (Inr (py_str t))"
  by (simp add: img2tex_def img2tex_loop.simps)

lemma make_entry_util_string:
  assumes "style \<in> {''table'', ''tikz'', ''md''}" "style = ''md'' \<or> img_search (py_str t) = None"
  shows "\<exists>str. make_entry_util env t z m style = Some (Inr (StrVal str))"
  using assms by (auto simp: make_entry_util_def map_str_def img2tex_plain)


lemma py_index_sizes: "- 10 \<le> k \<Longrightarrow> k < 10 \<Longrightarrow> \<exists>z. py_index sizes k = Inr z"
  by (simp add: py_index_def sizes_def)

lemma py_index_error: "py_index xs k = Inl e \<Longrightarrow> e = IndexError"
  by (simp add: py_index_def split: if_splits)

lemma index_then_util_error:
  "bnd (lift_res (py_index sizes k)) (\<lambda>z. lift_opt (make_entry_util env t z m style)) s = Some (Inl e, s')
   \<Longrightarrow> e = IndexError \<or> e = ReError"
  by (auto simp: bnd_def lift_res_def lift_opt_def split: option.splits sum.splits
      dest: py_index_error make_entry_util_error)

lemma lift_util_error:
  "lift_opt (make_entry_util env t z m style) s = Some (Inl e, s') \<Longrightarrow> e = ReError"
  by (auto simp: lift_opt_def split: option.splits dest: make_entry_util_error)

lemma make_entry_error:
  assumes "make_entry env e dsz hide style s = Some (Inl x, s')"
  shows "x = IndexError \<or> x = ReError \<or>
         (x = SystemExit ''This should not happen: bad hide parameter'' \<and>
          hide \<notin> {''hide'', ''mark'', ''ignore''})"
proof (cases e)
  case (Bare v)
  with assms show ?thesis
    by (auto simp: make_entry_def dest: index_then_util_error)
next
  case (Dict d)
  show ?thesis
  proof (cases "entry_text d")
    case None
    with Dict assms show ?thesis
      by (auto simp: make_entry_def bnd_def warn_def modify_def dest: lift_util_error)
  next
    case (Some tx)
    obtain k ds where k: "entry_size_index env d tx dsz s = Some (Inr k, s\<lparr>stderr := stderr s @ ds\<rparr>)"
      using entry_size_index_cases by blast
    from assms Dict Some k show ?thesis
      by (auto simp: make_entry_def bnd_def [of "entry_size_index env d tx dsz"] bnd_def [of "modify f" for f] modify_def raise_def
            split: if_splits dest: lift_util_error index_then_util_error)
  qed
qed

lemma index_then_util_string:
  assumes "- 10 \<le> k" "k < 10" "style \<in> {''table'', ''tikz'', ''md''}"
    "style = ''md'' \<or> img_search (py_str t) = None"
  shows "\<exists>str. bnd (lift_res (py_index sizes k)) (\<lambda>z. lift_opt (make_entry_util env t z m style)) s
           = Some (Inr (StrVal str), s)"
proof -
  obtain z where z: "py_index sizes k = Inr z"
    using py_index_sizes assms(1,2) by blast
  obtain str where "make_entry_util env t z m style = Some (Inr (StrVal str))"
    using make_entry_util_string assms(3,4) by blast
  with z show ?thesis by (simp add: bnd_def lift_res_def lift_opt_def)
qed

lemma search_empty: "img_search (py_str (SStr [])) = None"
  by (simp add: py_str_def)

lemma make_entry_string:
  assumes hide: "hide \<in> {''hide'', ''mark'', ''ignore''}"
    and style: "style \<in> {''table'', ''tikz'', ''md''}"
    and dsz: "- 10 \<le> dsz" "dsz < 10"
    and img: "style = ''md'' \<or> img_search (py_str (shown_text e)) = None"
  shows "\<exists>str s'. make_entry env e dsz hide style s = Some (Inr (StrVal str), s')"
proof (cases e)
  case (Bare v)
  with img have "style = ''md'' \<or> img_search (py_str v) = None" by (simp add: shown_text_def)
  from index_then_util_string [OF dsz style this] Bare show ?thesis
    by (simp add: make_entry_def) blast
next
  case (Dict d)
  obtain b where b: "make_entry_util env (SStr []) [] False style = Some (Inr (StrVal b))"
    using make_entry_util_string [OF style, of "SStr []" env "[]" False] search_empty by blast
  show ?thesis
  proof (cases "entry_text d")
    case None
    with Dict b show ?thesis
      by (simp add: make_entry_def bnd_def warn_def modify_def lift_opt_def)
  next
    case (Some tx)
    obtain k ds where k: "entry_size_index env d tx dsz s = Some (Inr k, s\<lparr>stderr := stderr s @ ds\<rparr>)"
      and kr: "k = dsz \<or> (0 \<le> k \<and> k < 10)"
      using entry_size_index_cases by blast
    from kr dsz have "- 10 \<le> k" "k < 10" by auto
    then obtain z where z: "py_index sizes k = Inr z"
      using py_index_sizes by blast
    from img Dict Some have im: "style = ''md'' \<or> img_search (py_str tx) = None"
      by (simp add: shown_text_def)
    obtain m where m: "make_entry_util env tx z True style = Some (Inr (StrVal m))"
      using make_entry_util_string [OF style im] by blast
    obtain u where u: "make_entry_util env tx z False style = Some (Inr (StrVal u))"
      using make_entry_util_string [OF style im] by blast
    from hide consider "hide = ''hide''" | "hide = ''mark''" | "hide = ''ignore''" by auto
    then show ?thesis
    proof cases
      case 1
      with Dict Some k b z m u show ?thesis
        by (simp add: make_entry_def bnd_def modify_def lift_opt_def lift_res_def)
    next
      case 2
      with Dict Some k b z m u show ?thesis
        by (simp add: make_entry_def bnd_def modify_def lift_opt_def lift_res_def)
    next
      case 3
      with Dict Some k b z m u show ?thesis
        by (simp add: make_entry_def bnd_def modify_def lift_opt_def lift_res_def)
    qed
  qed
qed

text \<open>A hidden entry formatted with \<^verbatim>\<open>hide = 'mark'\<close> sets the flag.\<close>

lemma make_entry_flag_mark:
  "make_entry (python (raw_of []))
     (Dict \<lparr>entry_text = Some (SStr ''x''), entry_size = None, entry_hidden = Some True\<rparr>)
     0 ''mark'' ''md'' start
   = Some (Inr (StrVal '' (*) x ''), start\<lparr>exists_hidden := True\<rparr>)"
  by (simp add: make_entry_def run_defs entry_size_index_def py_index_def sizes_def
      make_entry_util_def truthy_def py_str_def start_def)

text \<open>
  Claim C7 at the entry \<^verbatim>\<open>{text: "x", hidden: true}\<close> formatted with \<^verbatim>\<open>hide = 'ignore'\<close>
  while the flag is false: the claim has the flag stay false, as the docstring of
  \<^verbatim>\<open>make_entry\<close> has it (with \<^verbatim>\<open>"ignore"\<close> the \<^verbatim>\<open>"hidden"\<close> key will be ignored). In the
  code \<^verbatim>\<open>exists_hidden = True\<close> is assigned before \<^verbatim>\<open>hide\<close> is tested: the call returns
  \<^verbatim>\<open>" x "\<close> and leaves the flag true.
\<close>

theorem hidden_flag_set_by_ignore:
  "make_entry (python (raw_of []))
     (Dict \<lparr>entry_text = Some (SStr ''x''), entry_size = None, entry_hidden = Some True\<rparr>)
     0 ''ignore'' ''md'' start
   = Some (Inr (StrVal '' x ''), start\<lparr>exists_hidden := True\<rparr>)
   \<and> \<not> exists_hidden start"
  by (simp add: make_entry_def run_defs entry_size_index_def py_index_def sizes_def
      make_entry_util_def truthy_def py_str_def start_def)

text \<open>
  Three calls with a valid \<^verbatim>\<open>hide\<close> that do not return a string: the call of
  \<^verbatim>\<open>make_triangles\<close> for a side of a solution card when \<^verbatim>\<open>solutionTextSize\<close> is 10,
  which is no index of \<open>sizes\<close>; a style that \<^verbatim>\<open>make_entry_util\<close> does not know; and,
  with the library of Python 3.7, a text with an image.
\<close>

theorem make_entry_size_counterexample:
  "make_entry (python (raw_of [])) (Bare (SStr ''x'')) 10 ''mark'' ''tikz'' start
   = Some (Inl IndexError, start)"
  by (simp add: make_entry_def run_defs py_index_def sizes_def)

lemma make_entry_style_none:
  "make_entry (python (raw_of [])) (Bare (SStr ''x'')) 4 ''mark'' ''html'' start
   = Some (Inr NoneVal, start)"
  by (simp add: make_entry_def run_defs py_index_def sizes_def make_entry_util_def)

lemma make_entry_image_error:
  "make_entry (python (raw_of [])) (Bare (SStr ''![c](p)'')) 4 ''mark'' ''table'' start
   = Some (Inl ReError, start)"
  by (simp add: make_entry_def run_defs py_index_def sizes_def make_entry_util_def img2tex_def
      img2tex_loop.simps py_str_def img_match_def python_def map_str_def)

text \<open>
  Claim C9, as amended. When \<^verbatim>\<open>hide\<close> is one of \<^verbatim>\<open>'hide'\<close>, \<^verbatim>\<open>'mark'\<close> and
  \<^verbatim>\<open>'ignore'\<close>, no call of \<^verbatim>\<open>make_entry\<close> ends in the exit "This should not happen: bad
  hide parameter". The call returns a string for every entry, a bare one or a dictionary,
  when moreover the style is one of \<^verbatim>\<open>'table'\<close>, \<^verbatim>\<open>'tikz'\<close> and \<^verbatim>\<open>'md'\<close>, the default
  size is an index of the ten sizes (from -10 to 9) and, for the two styles that translate
  images, the text of the entry holds no image.
\<close>

theorem make_entry_no_abort:
  assumes "hide \<in> {''hide'', ''mark'', ''ignore''}"
  shows "(\<forall>m s'. make_entry env e dsz hide style s \<noteq> Some (Inl (SystemExit m), s'))
       \<and> (style \<in> {''table'', ''tikz'', ''md''} \<and> - 10 \<le> dsz \<and> dsz < 10
          \<and> (style = ''md'' \<or> img_search (py_str (shown_text e)) = None)
          \<longrightarrow> (\<exists>str s'. make_entry env e dsz hide style s = Some (Inr (StrVal str), s')))"
proof (intro conjI allI impI)
  fix m s'
  show "make_entry env e dsz hide style s \<noteq> Some (Inl (SystemExit m), s')"
  proof
    assume "make_entry env e dsz hide style s = Some (Inl (SystemExit m), s')"
    from make_entry_error [OF this] assms show False by simp
  qed
next
  assume "style \<in> {''table'', ''tikz'', ''md''} \<and> - 10 \<le> dsz \<and> dsz < 10
          \<and> (style = ''md'' \<or> img_search (py_str (shown_text e)) = None)"
  with assms show "\<exists>str s'. make_entry env e dsz hide style s = Some (Inr (StrVal str), s')"
    using make_entry_string by blast
qed

theorem make_entry_no_abort_witness:
  "(\<forall>m s'. make_entry (python (raw_of [])) (Bare (SStr ''x'')) 4 ''mark'' ''tikz'' start
            \<noteq> Some (Inl (SystemExit m), s'))
   \<and> (\<exists>str s'. make_entry (python (raw_of [])) (Bare (SStr ''x'')) 4 ''mark'' ''tikz'' start
            = Some (Inr (StrVal str), s'))"
  using make_entry_no_abort [of "''mark''" "python (raw_of [])" "Bare (SStr ''x'')" 4 "''tikz''" start]
  by (simp add: shown_text_def py_str_def img_match_def)

section \<open>Properties of the substitution\<close>

text \<open>
  \<^verbatim>\<open>losub\<close> always returns: a name without a substitution is reported and the scan
  goes on.
\<close>

lemma losub_returns:
  "losub text subs s =
     Some (Inr (fst (losub_scan subs text)), s\<lparr>stderr := stderr s @ snd (losub_scan subs text)\<rparr>)"
  by (simp add: losub_def bnd_def modify_def ret_def)

text \<open>Tokens that blanks separate are each replaced by their substitution.\<close>

lemma losub_separate_tokens:
  "losub ''<:a:> <: b :>'' [(''a'', ''1''), (''b'', ''2'')] start = Some (Inr ''1 2'', start)"
  by (simp add: losub_returns tok_match_def closes_def is_space_def Let_def start_def)

text \<open>
  Claim C8 at the template \<^verbatim>\<open><:a:><:b:>\<close>, with substitutions for \<^verbatim>\<open>a\<close> and \<^verbatim>\<open>b\<close>:
  the claim gives \<^verbatim>\<open>12\<close>. In the code the greedy group takes \<^verbatim>\<open>a:><:b\<close> for the name of
  one token that spans both, which is in no dictionary: the result is the empty text and
  one message, and neither token is replaced.
\<close>

theorem losub_adjacent_tokens:
  "losub ''<:a:><:b:>'' [(''a'', ''1''), (''b'', ''2'')] start
   = Some (Inr [], start\<lparr>stderr := [UnrecognisedSubstitution ''<:a:><:b:>'']\<rparr>)"
  by (simp add: losub_returns tok_match_def closes_def is_space_def Let_def start_def)

section \<open>Statements of a run\<close>

lemma bnd_Some:
  "bnd m f s = Some (r, s') \<longleftrightarrow>
     (\<exists>e. m s = Some (Inl e, s') \<and> r = Inl e) \<or>
     (\<exists>x s1. m s = Some (Inr x, s1) \<and> f x s1 = Some (r, s'))"
  by (auto simp: bnd_def split: option.splits sum.splits)

lemma bnd_Inr:
  "bnd m f s = Some (Inr y, s') \<longleftrightarrow> (\<exists>x s1. m s = Some (Inr x, s1) \<and> f x s1 = Some (Inr y, s'))"
  by (auto simp: bnd_Some)

lemma lift_res_Some: "lift_res r s = Some (x, s') \<longleftrightarrow> r = x \<and> s' = s"
  by (auto simp: lift_res_def)

lemma ret_Some: "ret x s = Some (r, s') \<longleftrightarrow> r = Inr x \<and> s' = s"
  by (auto simp: ret_def)

lemma modify_Some: "modify f s = Some (r, s') \<longleftrightarrow> r = Inr () \<and> s' = f s"
  by (auto simp: modify_def)

lemma keeps_rng_ret: "keeps_rng (ret x)"
  by (simp add: keeps_rng_def ret_def)

lemma keeps_rng_raise: "keeps_rng (raise e)"
  by (simp add: keeps_rng_def raise_def)

lemma keeps_rng_lift_res: "keeps_rng (lift_res r)"
  by (simp add: keeps_rng_def lift_res_def)

lemma keeps_rng_lift_opt: "keeps_rng (lift_opt r)"
  by (simp add: keeps_rng_def lift_opt_def split: option.splits)

lemma keeps_rng_modify: "(\<And>s. rng_pos (f s) = rng_pos s) \<Longrightarrow> keeps_rng (modify f)"
  by (simp add: keeps_rng_def modify_def)

lemma keeps_rng_warn: "keeps_rng (warn d)"
  by (simp add: warn_def keeps_rng_modify)

lemma keeps_rng_bnd: "keeps_rng m \<Longrightarrow> (\<And>x. keeps_rng (f x)) \<Longrightarrow> keeps_rng (bnd m f)"
  unfolding keeps_rng_def bnd_Some by metis

lemma keeps_rng_entry_size_index: "keeps_rng (entry_size_index env d t dsz)"
  by (auto simp: entry_size_index_def intro!: keeps_rng_ret keeps_rng_bnd keeps_rng_warn split: option.splits)

lemma keeps_rng_make_entry: "keeps_rng (make_entry env e dsz hide style)"
  unfolding make_entry_def
  by (auto split: entry.splits option.splits
      intro!: keeps_rng_bnd keeps_rng_warn keeps_rng_lift_opt keeps_rng_lift_res keeps_rng_modify
        keeps_rng_raise keeps_rng_entry_size_index)

lemma keeps_rng_fmt_slots: "keeps_rng (fmt_slots env sz hide crd ks)"
  by (induction ks) (auto intro!: keeps_rng_bnd keeps_rng_ret keeps_rng_lift_res keeps_rng_make_entry)

lemma keeps_rng_card_subst: "keeps_rng (card_subst env sh sz hide crd)"
  unfolding card_subst_def
  by (intro keeps_rng_bnd keeps_rng_ret keeps_rng_lift_res keeps_rng_fmt_slots)


section \<open>The loop over the cards\<close>

lemma keeps_rng_card_at:
  "keeps_rng (card_at env sh off so po ps ss i j rot c puz)"
  unfolding card_at_def Let_def
  by (intro keeps_rng_bnd keeps_rng_ret keeps_rng_lift_res keeps_rng_card_subst keeps_rng_modify) simp_all

lemma draw_randint0_Some:
  "draw_randint0 env k s = Some (r, s') \<longleftrightarrow>
     r = Inr (randint0 env k (rng_pos s)) \<and> s' = s\<lparr>rng_pos := Suc (rng_pos s)\<rparr>"
  by (auto simp: draw_randint0_def)

lemma nth_res_Inr: "nth_res xs i = Inr x \<longleftrightarrow> i < length xs \<and> x = xs ! i"
  by (auto simp: nth_res_def)

lemma card_step_draws:
  assumes "card_step env sh off so po ps ss order i c puz s = Some (r, s')" "i < length order"
  shows "rng_pos s' = Suc (rng_pos s)"
proof -
  from assms(2) have j: "nth_res order i = Inr (order ! i)" by (simp add: nth_res_def)
  let ?s1 = "s\<lparr>rng_pos := Suc (rng_pos s)\<rparr>"
  from assms(1) j obtain rot where
    "card_at env sh off so po ps ss i (order ! i) rot c puz ?s1 = Some (r, s')"
    by (auto simp: card_step_def bnd_def lift_res_def draw_randint0_def)
  with keeps_rng_card_at show ?thesis
    unfolding keeps_rng_def by fastforce
qed

lemma card_at_Inr:
  assumes "card_at env sh off so po ps ss i j rot c puz s = Some (Inr (c', puz'), s')"
  shows "\<exists>ring. puz_ring sh c rot = Inr ring \<and> j < length po \<and> j < length puz \<and> i < length so
          \<and> puz' = puz[j := ring @ [Bare (SStr (cardnum (int j + int off + 1))),
                                      Bare (SInt (snd (po ! j)))]]
          \<and> c' = c @ [Bare (SStr (cardnum (int j + int off + 1))),
                       Bare (SInt (number_angle sh (snd (po ! j)) (so ! i) (fst (po ! j)) rot))]"
  using assms
  by (auto simp: card_at_def bnd_Inr lift_res_Some Let_def nth_res_Inr py_setitem_def ret_Some
      split: if_splits)

lemma card_step_Inr:
  assumes "card_step env sh off so po ps ss order i c puz s = Some (Inr (c', puz'), s')"
  shows "i < length order \<and>
         (\<exists>s1. card_at env sh off so po ps ss i (order ! i)
                  (randint0 env (sides sh - 1) (rng_pos s)) c puz s1 = Some (Inr (c', puz'), s'))"
  using assms
  by (auto simp: card_step_def bnd_Inr lift_res_Some nth_res_Inr draw_randint0_Some)


lemma card_loop_draws:
  assumes "card_loop env sh off so po ps ss order i cards puz s = Some (r, s')"
    "i + length cards \<le> length order"
  shows "rng_pos s \<le> rng_pos s' \<and> (cards \<noteq> [] \<longrightarrow> rng_pos s < rng_pos s')"
  using assms
proof (induction cards arbitrary: i puz s r)
  case Nil
  then show ?case by (simp add: ret_def)
next
  case (Cons c cards)
  from Cons.prems(2) have i: "i < length order" by simp
  from Cons.prems(1) consider
    (fail) e where "card_step env sh off so po ps ss order i c puz s = Some (Inl e, s')"
    | (go) c' puz1 s1 where
        "card_step env sh off so po ps ss order i c puz s = Some (Inr (c', puz1), s1)"
        "bnd (card_loop env sh off so po ps ss order (Suc i) cards puz1)
           (\<lambda>(rest', puzcards''). ret (c' # rest', puzcards'')) s1 = Some (r, s')"
    by (auto simp: bnd_Some [of "card_step env sh off so po ps ss order i c puz"])
  then show ?case
  proof cases
    case fail
    from card_step_draws [OF fail i] show ?thesis by simp
  next
    case go
    from card_step_draws [OF go(1) i] have s1: "rng_pos s1 = Suc (rng_pos s)" .
    from go(2) obtain r2 where "card_loop env sh off so po ps ss order (Suc i) cards puz1 s1 = Some (r2, s')"
      by (auto simp: bnd_Some ret_Some split: prod.splits)
    from Cons.IH [OF this] Cons.prems(2) have "rng_pos s1 \<le> rng_pos s'" by simp
    with s1 show ?thesis by simp
  qed
qed

lemma randint0_range: "0 \<le> randint0 env k p \<and> randint0 env k p < int k + 1"
  by (simp add: randint0_def randbelow_def)

lemma card_loop_Inr:
  assumes "card_loop env sh off so po ps ss order i cards puz s = Some (Inr (cards', puz'), s')"
    "distinct order"
  shows "length puz' = length puz
       \<and> (\<forall>k<length cards. i + k < length order \<and> i + k < length so
              \<and> order ! (i + k) < length po \<and> order ! (i + k) < length puz
              \<and> is_piece sh off po (cards ! k) (order ! (i + k)) (puz' ! (order ! (i + k))))
       \<and> (\<forall>j. (\<forall>k<length cards. order ! (i + k) \<noteq> j) \<longrightarrow> puz' ! j = puz ! j)"
  using assms(1)
proof (induction cards arbitrary: i puz s cards')
  case Nil
  then show ?case by (simp add: ret_Some)
next
  case (Cons c cards)
  from Cons.prems obtain c' puz1 s1 rest' where
    step: "card_step env sh off so po ps ss order i c puz s = Some (Inr (c', puz1), s1)"
    and loop: "card_loop env sh off so po ps ss order (Suc i) cards puz1 s1 = Some (Inr (rest', puz'), s')"
    by (auto simp: bnd_Inr ret_Some split: prod.splits)
  let ?j = "order ! i"
  let ?rot = "randint0 env (sides sh - 1) (rng_pos s)"
  from card_step_Inr [OF step] obtain s0 where i: "i < length order"
    and at: "card_at env sh off so po ps ss i ?j ?rot c puz s0 = Some (Inr (c', puz1), s1)"
    by blast
  from card_at_Inr [OF at] obtain ring where ring: "puz_ring sh c ?rot = Inr ring"
    and j: "?j < length po" "?j < length puz" and iso: "i < length so"
    and puz1: "puz1 = puz[?j := ring @ [Bare (SStr (cardnum (int ?j + int off + 1))),
                                        Bare (SInt (snd (po ! ?j)))]]"
    by blast
  note IH = Cons.IH [OF loop]
  have sides: "0 < sides sh" by (simp add: sides_def split: shape.splits)
  have rot: "?rot \<in> {0..<int (sides sh)}"
    using randint0_range [of env "sides sh - 1" "rng_pos s"] sides by auto
  have later: "order ! (Suc i + k) \<noteq> ?j" if "k < length cards" for k
  proof -
    from IH that have "Suc i + k < length order" by simp
    with i assms(2) show ?thesis by (simp add: nth_eq_iff_index_eq)
  qed
  have keep: "puz' ! ?j = puz1 ! ?j" using IH later by simp
  have piece: "is_piece sh off po c ?j (puz' ! ?j)"
    unfolding is_piece_def using rot ring j puz1 keep by (auto intro!: bexI [of _ ?rot])
  have len: "length puz' = length puz" using IH puz1 by simp
  have all: "i + k < length order \<and> i + k < length so
              \<and> order ! (i + k) < length po \<and> order ! (i + k) < length puz
              \<and> is_piece sh off po ((c # cards) ! k) (order ! (i + k)) (puz' ! (order ! (i + k)))"
    if "k < length (c # cards)" for k
  proof (cases k)
    case 0
    with i iso j piece show ?thesis by simp
  next
    case (Suc k')
    with that have "k' < length cards" by simp
    with IH Suc puz1 show ?thesis by simp
  qed
  have others: "puz' ! j = puz ! j" if "\<forall>k<length (c # cards). order ! (i + k) \<noteq> j" for j
  proof -
    from that have "order ! (i + 0) \<noteq> j" by blast
    then have "?j \<noteq> j" by simp
    moreover from that have "\<forall>k<length cards. order ! (Suc i + k) \<noteq> j" by force
    ultimately show ?thesis using IH puz1 by simp
  qed
  from len all others show ?case by blast
qed

lemma draw_order_Some:
  "draw_order env n s = Some (r, s') \<longleftrightarrow>
     r = Inr (fst (shuffled_order env n (rng_pos s))) \<and> s' = s\<lparr>rng_pos := rng_pos s + (n - 1)\<rparr>"
  by (auto simp: draw_order_def shuffled_order_draws)

lemma place_cards_Inr:
  assumes run: "place_cards env sh off so po ps ss n cards s = Some (Inr (order, cards', puz), s')"
    and n: "length cards = n"
  shows "order = fst (shuffled_order env n (rng_pos s)) \<and> length puz = n
       \<and> (\<forall>i<n. i < length so \<and> order ! i < length po
              \<and> is_piece sh off po (cards ! i) (order ! i) (puz ! (order ! i)))"
proof -
  from run obtain s1 where order: "order = fst (shuffled_order env n (rng_pos s))"
    and loop: "card_loop env sh off so po ps ss order 0 cards (replicate n []) s1
                 = Some (Inr (cards', puz), s')"
    by (auto simp: place_cards_def bnd_Inr draw_order_Some ret_Some split: prod.splits)
  from order have "distinct order" by (simp add: shuffled_order_distinct)
  from card_loop_Inr [OF loop this] n show ?thesis
    using order by simp
qed

lemma place_cards_short:
  assumes run: "place_cards env sh off so po ps ss n cards s = Some (r, s')"
    and n: "length cards = n"
    and short: "length po < n \<or> length so < n"
  shows "(\<exists>e. r = Inl e) \<and> rng_pos s + n \<le> rng_pos s'"
proof -
  let ?order = "fst (shuffled_order env n (rng_pos s))"
  let ?s1 = "s\<lparr>rng_pos := rng_pos s + (n - 1)\<rparr>"
  from short have pos: "0 < n" by auto
  from run obtain r2 where
    loop: "card_loop env sh off so po ps ss ?order 0 cards (replicate n []) ?s1 = Some (r2, s')"
    and r2: "(\<exists>e. r2 = Inl e \<and> r = Inl e) \<or> (\<exists>c p. r2 = Inr (c, p) \<and> r = Inr (?order, c, p))"
    by (auto simp: place_cards_def bnd_Some draw_order_Some ret_Some split: prod.splits)
  have len: "length ?order = n" by (rule shuffled_order_length)
  from card_loop_draws [OF loop] n len pos have "rng_pos ?s1 < rng_pos s'" by auto
  with pos have draws: "rng_pos s + n \<le> rng_pos s'" by simp
  have "\<exists>e. r = Inl e"
  proof (rule ccontr)
    assume "\<not> (\<exists>e. r = Inl e)"
    with r2 obtain c p where "r2 = Inr (c, p)" by auto
    with loop have ok: "card_loop env sh off so po ps ss ?order 0 cards (replicate n []) ?s1
        = Some (Inr (c, p), s')" by simp
    note all = card_loop_Inr [OF ok shuffled_order_distinct]
    from pos have "n - 1 \<in> set ?order" by (simp add: shuffled_order_set)
    then obtain k where k: "k < n" "?order ! k = n - 1"
      using len by (metis in_set_conv_nth)
    from all n k have "n - 1 < length po" by force
    moreover from all n pos have "n - 1 < length so" by force
    ultimately show False using short by arith
  qed
  with draws show ?thesis by simp
qed

lemma nth_res_take: "i < n \<Longrightarrow> nth_res (take n xs) i = nth_res xs i"
  by (simp add: nth_res_def)

lemma card_at_take:
  "i < n \<Longrightarrow> j < n \<Longrightarrow>
   card_at env sh off (take n so) (take n po) ps ss i j rot c puz
   = card_at env sh off so po ps ss i j rot c puz"
  by (simp add: card_at_def nth_res_take)

lemma bnd_lift_Inr: "bnd (lift_res (Inr x)) f = f x"
  by (rule ext) (simp add: bnd_def lift_res_def)

lemma bnd_lift_Inl: "bnd (lift_res (Inl e)) f = lift_res (Inl e)"
  by (rule ext) (simp add: bnd_def lift_res_def)

lemma card_step_take:
  assumes "i < n" "\<forall>x\<in>set order. x < n"
  shows "card_step env sh off (take n so) (take n po) ps ss order i c puz
       = card_step env sh off so po ps ss order i c puz"
proof (cases "i < length order")
  case True
  with assms(2) have "order ! i < n" by simp
  with True assms(1) show ?thesis
    by (simp add: card_step_def nth_res_def bnd_lift_Inr card_at_take)
next
  case False
  then show ?thesis
    by (simp add: card_step_def nth_res_def bnd_lift_Inl)
qed

lemma card_loop_take:
  assumes "i + length cards \<le> n" "\<forall>x\<in>set order. x < n"
  shows "card_loop env sh off (take n so) (take n po) ps ss order i cards puz
       = card_loop env sh off so po ps ss order i cards puz"
  using assms(1)
proof (induction cards arbitrary: i puz)
  case Nil
  show ?case by simp
next
  case (Cons c cards)
  from Cons.prems have "i < n" "Suc i + length cards \<le> n" by simp_all
  with Cons.IH assms(2) show ?case by (simp add: card_step_take)
qed

lemma place_cards_take:
  assumes "length cards = n"
  shows "place_cards env sh off (take n so) (take n po) ps ss n cards s
       = place_cards env sh off so po ps ss n cards s"
proof -
  have "\<forall>x\<in>set (fst (shuffled_order env n (rng_pos s))). x < n"
    by (simp add: shuffled_order_set)
  with assms show ?thesis
    by (simp add: place_cards_def bnd_def [of "draw_order env n"] draw_order_def card_loop_take)
qed

text \<open>
  The loop returns when the tables are long enough, the two text sizes are indices of
  \<open>sizes\<close>, and every card has at least as many entries as its shape has sides, none
  of them with an image.
\<close>

lemma fmt_slots_returns:
  assumes "hide \<in> {''hide'', ''mark'', ''ignore''}" "- 10 \<le> sz" "sz < 10"
    "\<forall>k\<in>set ks. 0 \<le> k \<and> k < int (length crd) \<and> plain_entry (crd ! nat k)"
  shows "\<exists>es s'. fmt_slots env sz hide crd ks s = Some (Inr es, s')"
  using assms(4)
proof (induction ks arbitrary: s)
  case Nil
  then show ?case by (simp add: ret_def)
next
  case (Cons k ks)
  from Cons.prems have k: "0 \<le> k" "k < int (length crd)" and plain: "plain_entry (crd ! nat k)"
    by simp_all
  from k have idx: "py_index crd k = Inr (crd ! nat k)" by (rule py_index_nat)
  from plain have "''tikz'' = ''md'' \<or> img_search (py_str (shown_text (crd ! nat k))) = None"
    by (simp add: plain_entry_def)
  from make_entry_string [OF assms(1) _ assms(2,3) this, of env s]
  obtain str s1 where e: "make_entry env (crd ! nat k) sz hide ''tikz'' s = Some (Inr (StrVal str), s1)"
    by auto
  from Cons.IH [of s1] Cons.prems obtain es s2 where
    "fmt_slots env sz hide crd ks s1 = Some (Inr es, s2)" by auto
  with idx e show ?case by (simp add: bnd_lift_Inr bnd_def ret_def)
qed

lemma card_subst_returns:
  assumes "hide \<in> {''hide'', ''mark'', ''ignore''}" "- 10 \<le> sz" "sz < 10"
    "sides sh + 2 \<le> length crd" "\<forall>k<sides sh. plain_entry (crd ! k)"
  shows "\<exists>v s'. card_subst env sh sz hide crd s = Some (Inr v, s')"
proof -
  have "\<forall>k\<in>set (map int [0..<sides sh]). 0 \<le> k \<and> k < int (length crd) \<and> plain_entry (crd ! nat k)"
    using assms(4,5) by auto
  from fmt_slots_returns [OF assms(1-3) this, of env s] obtain es s1 where
    es: "fmt_slots env sz hide crd (map int [0..<sides sh]) s = Some (Inr es, s1)" by blast
  from assms(2,3) have "- 10 \<le> max (sz - 2) 0" "max (sz - 2) 0 < 10" by simp_all
  then obtain z where z: "py_index sizes (max (sz - 2) 0) = Inr z"
    using py_index_sizes by blast
  from assms(4) have n: "py_index crd (int (sides sh)) = Inr (crd ! sides sh)"
    using py_index_nat [of "int (sides sh)" crd] by simp
  from assms(4) have a: "py_index crd (int (sides sh) + 1) = Inr (crd ! (sides sh + 1))"
    using py_index_nat [of "int (sides sh) + 1" crd] by (simp add: nat_add_distrib)
  from es z n a show ?thesis
    by (simp add: card_subst_def bnd_def [of "fmt_slots env sz hide crd ks" for ks] bnd_lift_Inr ret_def)
qed

lemma puz_ring_returns:
  assumes "sides sh \<le> length c" "0 \<le> rot" "rot < int (sides sh)"
  shows "\<exists>ring. puz_ring sh c rot = Inr ring \<and> length ring = sides sh \<and> set ring \<subseteq> set c"
proof (cases sh)
  case Triangle
  with assms have len: "3 \<le> length c" and rot: "rot < 3" by (simp_all add: sides_def)
  have "0 \<le> (3 - rot) mod 3" "(3 - rot) mod 3 < 3" "0 \<le> (4 - rot) mod 3" "(4 - rot) mod 3 < 3"
    "0 \<le> (5 - rot) mod 3" "(5 - rot) mod 3 < 3" by simp_all
  with len Triangle show ?thesis
    by (simp add: puz_ring_def tri_ring_def py_index_nat sides_def)
next
  case Square
  with assms have len: "4 \<le> length c" and rot: "rot < 4" by (simp_all add: sides_def)
  have "0 \<le> (4 - rot) mod 4" "(4 - rot) mod 4 < 4" "0 \<le> (5 - rot) mod 4" "(5 - rot) mod 4 < 4"
    "0 \<le> (6 - rot) mod 4" "(6 - rot) mod 4 < 4" "0 \<le> (7 - rot) mod 4" "(7 - rot) mod 4 < 4"
    by simp_all
  with len Square show ?thesis
    by (simp add: puz_ring_def sq_ring_def py_index_nat sides_def)
qed

lemma card_at_returns:
  assumes sizes: "- 10 \<le> ps" "ps < 10" "- 10 \<le> ss" "ss < 10"
    and c: "sides sh \<le> length c" "\<forall>e\<in>set c. plain_entry e"
    and rot: "0 \<le> rot" "rot < int (sides sh)"
    and idx: "j < length po" "j < length puz" "i < length so"
  shows "\<exists>c' puz' s'. card_at env sh off so po ps ss i j rot c puz s = Some (Inr (c', puz'), s')"
proof -
  from puz_ring_returns [OF c(1) rot] obtain ring where
    ring: "puz_ring sh c rot = Inr ring" "length ring = sides sh" "set ring \<subseteq> set c" by blast
  let ?puzcard = "ring @ [Bare (SStr (cardnum (int j + int off + 1))), Bare (SInt (snd (po ! j)))]"
  let ?solcard = "c @ [Bare (SStr (cardnum (int j + int off + 1))),
                       Bare (SInt (number_angle sh (snd (po ! j)) (so ! i) (fst (po ! j)) rot))]"
  have "\<forall>k<sides sh. plain_entry (?solcard ! k)"
    using c by (simp add: nth_append)
  from card_subst_returns [OF _ sizes(3,4) _ this, of "''mark''" env s] c(1)
  obtain v s1 where v: "card_subst env sh ss ''mark'' ?solcard s = Some (Inr v, s1)" by auto
  let ?s2 = "s1\<lparr>dsubs := dict_set (dsubs s1) (solkey sh @ str_nat (i + 1)) v\<rparr>"
  have "\<forall>k<sides sh. plain_entry (?puzcard ! k)"
  proof (intro allI impI)
    fix k assume "k < sides sh"
    with ring(2) have "ring ! k \<in> set ring" by simp
    with ring(3) c(2) have "plain_entry (ring ! k)" by blast
    with \<open>k < sides sh\<close> ring(2) show "plain_entry (?puzcard ! k)" by (simp add: nth_append)
  qed
  from card_subst_returns [OF _ sizes(1,2) _ this, of "''hide''" env ?s2] ring(2)
  obtain w s3 where w: "card_subst env sh ps ''hide'' ?puzcard ?s2 = Some (Inr w, s3)" by auto
  from ring(1) idx v w show ?thesis
    by (simp add: card_at_def bnd_lift_Inr nth_res_def py_setitem_def Let_def
        bnd_def [of "card_subst env sh sz hide crd" for sz hide crd]
        bnd_def [of "modify f" for f] modify_def ret_def)
qed

lemma card_loop_returns:
  assumes sizes: "- 10 \<le> ps" "ps < 10" "- 10 \<le> ss" "ss < 10"
    and cards: "\<forall>c\<in>set cards. sides sh \<le> length c \<and> (\<forall>e\<in>set c. plain_entry e)"
    and idx: "\<forall>k<length cards. i + k < length order \<and> i + k < length so
                \<and> order ! (i + k) < length po \<and> order ! (i + k) < length puz"
  shows "\<exists>cards' puz' s'.
           card_loop env sh off so po ps ss order i cards puz s = Some (Inr (cards', puz'), s')"
  using cards idx
proof (induction cards arbitrary: i puz s)
  case Nil
  show ?case by (simp add: ret_def)
next
  case (Cons c cards)
  from Cons.prems(2) have i: "i < length order" "i < length so" "order ! i < length po"
    "order ! i < length puz" by force+
  let ?rot = "randint0 env (sides sh - 1) (rng_pos s)"
  have "0 < sides sh" by (simp add: sides_def split: shape.splits)
  with randint0_range [of env "sides sh - 1" "rng_pos s"]
  have rot: "0 \<le> ?rot" "?rot < int (sides sh)" by auto
  from Cons.prems(1) have c: "sides sh \<le> length c" "\<forall>e\<in>set c. plain_entry e" by simp_all
  from card_at_returns [OF sizes c rot i(3,4,2), of env off "s\<lparr>rng_pos := Suc (rng_pos s)\<rparr>"]
  obtain c' puz1 s1 where at: "card_at env sh off so po ps ss i (order ! i) ?rot c puz
       (s\<lparr>rng_pos := Suc (rng_pos s)\<rparr>) = Some (Inr (c', puz1), s1)" by blast
  from card_at_Inr [OF at] have len: "length puz1 = length puz" by auto
  from i(1) at have step: "card_step env sh off so po ps ss order i c puz s = Some (Inr (c', puz1), s1)"
    by (simp add: card_step_def nth_res_def bnd_lift_Inr bnd_def draw_randint0_def)
  have "\<forall>k<length cards. Suc i + k < length order \<and> Suc i + k < length so
                \<and> order ! (Suc i + k) < length po \<and> order ! (Suc i + k) < length puz1"
  proof (intro allI impI)
    fix k assume "k < length cards"
    then have "Suc k < length (c # cards)" by simp
    with Cons.prems(2) have "i + Suc k < length order \<and> i + Suc k < length so
                \<and> order ! (i + Suc k) < length po \<and> order ! (i + Suc k) < length puz" by blast
    with len show "Suc i + k < length order \<and> Suc i + k < length so
                \<and> order ! (Suc i + k) < length po \<and> order ! (Suc i + k) < length puz1" by simp
  qed
  with Cons.IH [of "Suc i" puz1 s1] Cons.prems(1) obtain cards' puz' s' where
    "card_loop env sh off so po ps ss order (Suc i) cards puz1 s1 = Some (Inr (cards', puz'), s')"
    by auto
  with step show ?case by (simp add: bnd_def ret_def)
qed

lemma place_cards_returns:
  assumes sizes: "- 10 \<le> ps" "ps < 10" "- 10 \<le> ss" "ss < 10"
    and cards: "\<forall>c\<in>set cards. sides sh \<le> length c \<and> (\<forall>e\<in>set c. plain_entry e)"
    and n: "length cards = n" "n \<le> length so" "n \<le> length po"
  shows "\<exists>order cards' puz s'.
           place_cards env sh off so po ps ss n cards s = Some (Inr (order, cards', puz), s')"
proof -
  let ?order = "fst (shuffled_order env n (rng_pos s))"
  have "\<forall>x\<in>set ?order. x < n" by (simp add: shuffled_order_set)
  then have "\<forall>k<n. ?order ! k < n" by (simp add: shuffled_order_length)
  with n have "\<forall>k<length cards. 0 + k < length ?order \<and> 0 + k < length so
                \<and> ?order ! (0 + k) < length po \<and> ?order ! (0 + k) < length (replicate n ([]::entry list))"
    by (simp add: shuffled_order_length) (meson less_le_trans)
  from card_loop_returns [OF sizes cards this, of env off "s\<lparr>rng_pos := snd (shuffled_order env n (rng_pos s))\<rparr>"]
  show ?thesis
    by (auto simp: place_cards_def bnd_def draw_order_def ret_def)
qed

text \<open>
  With such sizes and cards the loop does return, whatever the tables are: normally, or
  on the \<^verbatim>\<open>IndexError\<close> of a table that has no entry for a card.
\<close>

lemma card_at_result:
  assumes sizes: "- 10 \<le> ps" "ps < 10" "- 10 \<le> ss" "ss < 10"
    and c: "sides sh \<le> length c" "\<forall>e\<in>set c. plain_entry e"
    and rot: "0 \<le> rot" "rot < int (sides sh)"
    and j: "j < length puz"
  shows "\<exists>r s'. card_at env sh off so po ps ss i j rot c puz s = Some (r, s')
           \<and> (r = Inl IndexError \<or> (\<exists>x. r = Inr x))"
proof -
  from puz_ring_returns [OF c(1) rot] obtain ring where
    ring: "puz_ring sh c rot = Inr ring" by blast
  show ?thesis
  proof (cases "j < length po")
    case False
    with ring have "card_at env sh off so po ps ss i j rot c puz s = Some (Inl IndexError, s)"
      by (simp add: card_at_def bnd_lift_Inr nth_res_def bnd_lift_Inl lift_res_def)
    then show ?thesis by simp
  next
    case True
    show ?thesis
    proof (cases "i < length so")
      case False
      with ring True j have "card_at env sh off so po ps ss i j rot c puz s = Some (Inl IndexError, s)"
        by (simp add: card_at_def bnd_lift_Inr nth_res_def py_setitem_def Let_def bnd_lift_Inl
            lift_res_def)
      then show ?thesis by simp
    next
      case so: True
      from card_at_returns [OF sizes c rot True j so, of env off s] show ?thesis by auto
    qed
  qed
qed

lemma card_loop_result:
  assumes sizes: "- 10 \<le> ps" "ps < 10" "- 10 \<le> ss" "ss < 10"
    and cards: "\<forall>c\<in>set cards. sides sh \<le> length c \<and> (\<forall>e\<in>set c. plain_entry e)"
    and idx: "\<forall>k<length cards. i + k < length order \<and> order ! (i + k) < length puz"
  shows "\<exists>r s'. card_loop env sh off so po ps ss order i cards puz s = Some (r, s')
           \<and> (r = Inl IndexError \<or> (\<exists>x. r = Inr x))"
  using cards idx
proof (induction cards arbitrary: i puz s)
  case Nil
  show ?case by (simp add: ret_def)
next
  case (Cons c cards)
  from Cons.prems(2) have i: "i < length order" "order ! i < length puz" by force+
  let ?rot = "randint0 env (sides sh - 1) (rng_pos s)"
  let ?s1 = "s\<lparr>rng_pos := Suc (rng_pos s)\<rparr>"
  have "0 < sides sh" by (simp add: sides_def split: shape.splits)
  with randint0_range [of env "sides sh - 1" "rng_pos s"]
  have rot: "0 \<le> ?rot" "?rot < int (sides sh)" by auto
  from Cons.prems(1) have c: "sides sh \<le> length c" "\<forall>e\<in>set c. plain_entry e" by simp_all
  from card_at_result [OF sizes c rot i(2), of env off so po i ?s1]
  obtain r1 s1 where at: "card_at env sh off so po ps ss i (order ! i) ?rot c puz ?s1 = Some (r1, s1)"
    and r1: "r1 = Inl IndexError \<or> (\<exists>x. r1 = Inr x)" by blast
  from i(1) at have step: "card_step env sh off so po ps ss order i c puz s = Some (r1, s1)"
    by (simp add: card_step_def nth_res_def bnd_lift_Inr bnd_def draw_randint0_def)
  from r1 show ?case
  proof
    assume "r1 = Inl IndexError"
    with step show ?thesis by (simp add: bnd_def)
  next
    assume "\<exists>x. r1 = Inr x"
    then obtain c' puz1 where x: "r1 = Inr (c', puz1)" by auto
    with at card_at_Inr [of env sh off so po ps ss i "order ! i" ?rot c puz ?s1 c' puz1 s1]
    have len: "length puz1 = length puz" by auto
    have "\<forall>k<length cards. Suc i + k < length order \<and> order ! (Suc i + k) < length puz1"
    proof (intro allI impI)
      fix k assume "k < length cards"
      then have "Suc k < length (c # cards)" by simp
      with Cons.prems(2) have "i + Suc k < length order \<and> order ! (i + Suc k) < length puz"
        by blast
      with len show "Suc i + k < length order \<and> order ! (Suc i + k) < length puz1" by simp
    qed
    with Cons.IH [of "Suc i" puz1 s1] Cons.prems(1) obtain r2 s2 where
      loop: "card_loop env sh off so po ps ss order (Suc i) cards puz1 s1 = Some (r2, s2)"
      and r2: "r2 = Inl IndexError \<or> (\<exists>x. r2 = Inr x)" by auto
    from r2 show ?thesis
    proof
      assume "r2 = Inl IndexError"
      with step x loop show ?thesis by (simp add: bnd_def)
    next
      assume "\<exists>x. r2 = Inr x"
      then obtain rest' puz2 where "r2 = Inr (rest', puz2)" by auto
      with step x loop show ?thesis by (simp add: bnd_def ret_def)
    qed
  qed
qed

lemma place_cards_result:
  assumes sizes: "- 10 \<le> ps" "ps < 10" "- 10 \<le> ss" "ss < 10"
    and cards: "\<forall>c\<in>set cards. sides sh \<le> length c \<and> (\<forall>e\<in>set c. plain_entry e)"
    and n: "length cards = n"
  shows "\<exists>r s'. place_cards env sh off so po ps ss n cards s = Some (r, s')
           \<and> (r = Inl IndexError \<or> (\<exists>x. r = Inr x))"
proof -
  let ?order = "fst (shuffled_order env n (rng_pos s))"
  let ?s1 = "s\<lparr>rng_pos := snd (shuffled_order env n (rng_pos s))\<rparr>"
  have "\<forall>x\<in>set ?order. x < n" by (simp add: shuffled_order_set)
  then have "\<forall>k<n. ?order ! k < n" by (simp add: shuffled_order_length)
  with n have "\<forall>k<length cards. 0 + k < length ?order
                \<and> ?order ! (0 + k) < length (replicate n ([]::entry list))"
    by (simp add: shuffled_order_length)
  from card_loop_result [OF sizes cards this, of env off so po ?s1]
  obtain r s' where loop: "card_loop env sh off so po ps ss ?order 0 cards (replicate n []) ?s1
      = Some (r, s')" and r: "r = Inl IndexError \<or> (\<exists>x. r = Inr x)" by blast
  from r show ?thesis
  proof
    assume "r = Inl IndexError"
    with loop show ?thesis by (simp add: place_cards_def bnd_def draw_order_def)
  next
    assume "\<exists>x. r = Inr x"
    then obtain c p where "r = Inr (c, p)" by auto
    with loop show ?thesis by (simp add: place_cards_def bnd_def draw_order_def ret_def)
  qed
qed

section \<open>The order of the cards\<close>

text \<open>
  Claim C1. For every shape and every list of \<open>n\<close> solution cards, the order that the
  engine draws sends the solution indices \<open>0, \<dots>, n - 1\<close> one-to-one onto the puzzle
  positions \<open>0, \<dots>, n - 1\<close>, for every generator and wherever the run stands in its
  sequence of draws. When the loop over the cards has run to its end, the list of puzzle
  cards has \<open>n\<close> entries, position \<open>order[i]\<close> holds solution card \<open>i\<close> (its sides under
  one of the rotations, with the number and the angle of that position), and every
  position is that of exactly one solution card. The loop does run to its end when the
  tables have an entry for every card, the text sizes are indices of the size table and
  the cards have their sides, without images.
\<close>

theorem assignment_bijection:
  "bij_betw (\<lambda>i. fst (shuffled_order env n p) ! i) {0..<n} {0..<n}
   \<and> (place_cards env sh off so po ps ss n cards s = Some (Inr (order, cards', puz), s')
        \<and> length cards = n \<and> rng_pos s = p
      \<longrightarrow> order = fst (shuffled_order env n p) \<and> length puz = n
        \<and> (\<forall>i<n. is_piece sh off po (cards ! i) (order ! i) (puz ! (order ! i)))
        \<and> (\<forall>j<n. \<exists>!i. i < n \<and> order ! i = j))
   \<and> (length cards = n \<and> n \<le> length so \<and> n \<le> length po
        \<and> - 10 \<le> ps \<and> ps < 10 \<and> - 10 \<le> ss \<and> ss < 10
        \<and> (\<forall>c\<in>set cards. sides sh \<le> length c \<and> (\<forall>e\<in>set c. plain_entry e))
      \<longrightarrow> (\<exists>order cards' puz s'.
             place_cards env sh off so po ps ss n cards s = Some (Inr (order, cards', puz), s')))"
proof (intro conjI impI)
  let ?order = "fst (shuffled_order env n p)"
  have len: "length ?order = n" by (rule shuffled_order_length)
  have "bij_betw ((!) ?order) {..<length ?order} (set ?order)"
    by (rule bij_betw_nth [OF shuffled_order_distinct]) simp_all
  then show bij: "bij_betw (\<lambda>i. ?order ! i) {0..<n} {0..<n}"
    by (simp add: len shuffled_order_set atLeast0LessThan)
  assume run: "place_cards env sh off so po ps ss n cards s = Some (Inr (order, cards', puz), s')
        \<and> length cards = n \<and> rng_pos s = p"
  with place_cards_Inr [of env sh off so po ps ss n cards s order cards' puz s']
  have order: "order = ?order" and puz: "length puz = n"
    and pieces: "\<forall>i<n. is_piece sh off po (cards ! i) (order ! i) (puz ! (order ! i))"
    by auto
  show "order = ?order" by (rule order)
  show "length puz = n" by (rule puz)
  show "\<forall>i<n. is_piece sh off po (cards ! i) (order ! i) (puz ! (order ! i))" by (rule pieces)
  show "\<forall>j<n. \<exists>!i. i < n \<and> order ! i = j"
  proof (intro allI impI)
    fix j assume "j < n"
    then have "j \<in> {0..<n}" by simp
    with bij obtain i where i: "i \<in> {0..<n}" "?order ! i = j"
      unfolding bij_betw_def by (metis (no_types, lifting) imageE)
    show "\<exists>!i. i < n \<and> order ! i = j"
    proof (rule ex1I [of _ i])
      show "i < n \<and> order ! i = j" using i order by simp
    next
      fix k assume k: "k < n \<and> order ! k = j"
      have "distinct ?order" by (rule shuffled_order_distinct)
      moreover from k i order have "?order ! k = ?order ! i" by simp
      moreover from k i len have "k < length ?order" "i < length ?order" by simp_all
      ultimately show "k = i" by (simp add: nth_eq_iff_index_eq)
    qed
  qed
next
  assume "length cards = n \<and> n \<le> length so \<and> n \<le> length po
        \<and> - 10 \<le> ps \<and> ps < 10 \<and> - 10 \<le> ss \<and> ss < 10
        \<and> (\<forall>c\<in>set cards. sides sh \<le> length c \<and> (\<forall>e\<in>set c. plain_entry e))"
  then show "\<exists>order cards' puz s'.
             place_cards env sh off so po ps ss n cards s = Some (Inr (order, cards', puz), s')"
    using place_cards_returns by blast
qed

theorem assignment_bijection_witness:
  "bij_betw (\<lambda>i. [1, 0] ! i) {0..<2} {0..<2::nat}
   \<and> (\<exists>cards' puz s'.
        place_cards ex_env Triangle 0 [0, 180] [(0, 0), (180, 180)] 4 4 2 ex_cards start
          = Some (Inr ([1, 0], cards', puz), s')
        \<and> length puz = 2
        \<and> (\<forall>i<2. is_piece Triangle 0 [(0, 0), (180, 180)] (ex_cards ! i) ([1, 0] ! i) (puz ! ([1, 0] ! i))))"
proof -
  have wf: "length ex_cards = 2 \<and> 2 \<le> length [0, 180 :: int]
        \<and> 2 \<le> length [(0, 0), (180, 180 :: int) :: int \<times> int]
        \<and> - 10 \<le> (4::int) \<and> (4::int) < 10 \<and> - 10 \<le> (4::int) \<and> (4::int) < 10
        \<and> (\<forall>c\<in>set ex_cards. sides Triangle \<le> length c \<and> (\<forall>e\<in>set c. plain_entry e))"
    by (simp add: ex_cards_def sides_def plain_entry_def shown_text_def py_str_def str_int_def
        str_nat.simps img_match_def)
  note inst = assignment_bijection [of ex_env 2 0 Triangle 0 "[0, 180]" "[(0, 0), (180, 180)]" 4 4
      ex_cards start _ _ _ _]
  from inst wf obtain order c p s' where
    run: "place_cards ex_env Triangle 0 [0, 180] [(0, 0), (180, 180)] 4 4 2 ex_cards start
          = Some (Inr (order, c, p), s')"
    by blast
  have "case place_cards ex_env Triangle 0 [0, 180] [(0, 0), (180, 180)] 4 4 2 ex_cards start of
          Some (Inr (order, c, p), s') \<Rightarrow> order = [1, 0] | _ \<Rightarrow> False"
    by code_simp
  with run have order: "order = [1, 0]" by simp
  have "length ex_cards = 2" "rng_pos start = 0" by (simp_all add: ex_cards_def start_def)
  with run order assignment_bijection [of ex_env 2 0 Triangle 0 "[0, 180]" "[(0, 0), (180, 180)]" 4 4
      ex_cards start "[1, 0]" c p s']
  show ?thesis by auto
qed

section \<open>Card references and orientation tables\<close>

lemma collect_length: "collect rs = Inr xs \<Longrightarrow> length xs = length rs"
proof (induction rs arbitrary: xs)
  case Nil
  then show ?case by simp
next
  case (Cons r rs)
  then show ?case by (cases r) (auto split: sum.splits)
qed

lemma collect_Inl: "Inl e \<in> set rs \<Longrightarrow> \<exists>e'. collect rs = Inl e'"
proof (induction rs)
  case Nil
  then show ?case by simp
next
  case (Cons r rs)
  then show ?case by (cases r) (auto split: sum.splits)
qed

lemma resolve_cards_length:
  "resolve_cards env pairs edges cards = Inr rs \<Longrightarrow> length rs = length cards"
  by (auto simp: resolve_cards_def dest: collect_length)

lemma resolve_entry_unrecognised:
  assumes "entry = [] \<or> hd entry \<notin> {CHR ''Q'', CHR ''A'', CHR ''E''}"
  shows "resolve_entry env pairs edges entry \<in> {Inl ValueError, Inl IndexError, Inl NameError}"
  using assms by (auto simp: resolve_entry_def Let_def split: option.splits list.splits)

lemma resolve_cards_unrecognised:
  assumes "crd \<in> set cards" "entry \<in> set crd"
    "entry = [] \<or> hd entry \<notin> {CHR ''Q'', CHR ''A'', CHR ''E''}"
  shows "\<exists>e. resolve_cards env pairs edges cards = Inl e"
proof -
  from resolve_entry_unrecognised [OF assms(3), of env pairs edges] assms(2)
  obtain e where "Inl e \<in> set (map (resolve_entry env pairs edges) crd)"
    by (metis (no_types, lifting) image_eqI insertE list.set_map singletonD)
  then obtain e' where "resolve_card env pairs edges crd = Inl e'"
    unfolding resolve_card_def using collect_Inl by blast
  with assms(1) have "Inl e' \<in> set (map (resolve_card env pairs edges) cards)"
    by (metis image_eqI list.set_map)
  then show ?thesis unfolding resolve_cards_def by (rule collect_Inl)
qed

lemma layout_key_Some: "layout_key (Some x) = Inr x"
  by (simp add: layout_key_def)

lemma layout_key_None: "layout_key None = Inl KeyError"
  by (simp add: layout_key_def)

lemmas key_simps = layout_key_Some layout_key_None bnd_lift_Inr bnd_lift_Inl

lemma make_triangles_unrecognised:
  assumes "triangleSolutionCards layout = Some specs" "crd \<in> set specs" "entry \<in> set crd"
    "entry = [] \<or> hd entry \<notin> {CHR ''Q'', CHR ''A'', CHR ''E''}"
  shows "\<exists>e. make_triangles env ps ss layout pairs edges s = Some (Inl e, s)"
proof -
  from resolve_cards_unrecognised [OF assms(2-4)] obtain e where
    "resolve_cards env pairs edges specs = Inl e" by blast
  with assms(1) show ?thesis by (simp add: make_triangles_def key_simps lift_res_def)
qed

lemma make_squares_unrecognised:
  assumes "triangleSolutionCards layout = Some tspecs"
    "squareSolutionCards layout = Some specs" "crd \<in> set specs" "entry \<in> set crd"
    "entry = [] \<or> hd entry \<notin> {CHR ''Q'', CHR ''A'', CHR ''E''}"
  shows "\<exists>e. make_squares env ps ss layout pairs edges s = Some (Inl e, s)"
proof -
  from resolve_cards_unrecognised [OF assms(3-5)] obtain e where
    "resolve_cards env pairs edges specs = Inl e" by blast
  with assms(1,2) show ?thesis by (simp add: make_squares_def key_simps lift_res_def)
qed

text \<open>
  Claim C6 at the triangle card \<^verbatim>\<open>["Q1", "X1", "E1"]\<close>: the claim has the run go on with
  a message and an empty entry for \<^verbatim>\<open>X1\<close>. In the code the branch for an unrecognised
  kind calls \<^verbatim>\<open>printf\<close>, a name that is not defined: the run stops on \<^verbatim>\<open>NameError\<close> in
  the state it started in, with nothing printed and nothing drawn.
\<close>

theorem unrecognised_kind_name_error:
  "make_triangles ex_env 4 4
     (ex_layout\<lparr>triangleSolutionCards := Some [[''Q1'', ''X1'', ''E1'']]\<rparr>)
     ex_pairs ex_edges start
   = Some (Inl NameError, start)"
  by code_simp

text \<open>
  A layout without the key \<^verbatim>\<open>triangleSolutionCards\<close> stops \<^verbatim>\<open>make_squares\<close> at its
  first read of the layout, before anything is drawn; so does any other missing key the
  functions read, all of them before the shuffle.
\<close>

lemma make_squares_no_triangles:
  "triangleSolutionCards layout = None \<Longrightarrow>
   make_squares env ps ss layout pairs edges s = Some (Inl KeyError, s)"
  by (simp add: make_squares_def key_simps lift_res_def)

lemma make_triangles_short:
  assumes keys: "triangleSolutionCards layout = Some specs"
      "triangleSolutionOrientation layout = Some so" "trianglePuzzleOrientation layout = Some po"
    and res: "resolve_cards env pairs edges specs = Inr cards"
    and short: "length po < length specs \<or> length so < length specs"
    and run: "make_triangles env ps ss layout pairs edges s = Some (r, s')"
  shows "(\<exists>e. r = Inl e) \<and> rng_pos s + length specs \<le> rng_pos s'"
proof -
  let ?place = "place_cards env Triangle 0 so po ps ss (length specs) cards"
  have n: "length cards = length specs" using res by (rule resolve_cards_length)
  from run keys res obtain r1 s1 where p: "?place s = Some (r1, s1)"
    and r1: "(\<exists>e. r1 = Inl e \<and> r = Inl e \<and> s' = s1) \<or> (\<exists>x. r1 = Inr x)"
    by (auto simp: make_triangles_def key_simps bnd_Some [of ?place])
  from place_cards_short [OF p n short] r1 show ?thesis by auto
qed

lemma make_squares_short:
  assumes keys: "triangleSolutionCards layout = Some tspecs" "squareSolutionCards layout = Some specs"
      "squareSolutionOrientation layout = Some so" "squarePuzzleOrientation layout = Some po"
    and res: "resolve_cards env pairs edges specs = Inr cards"
    and short: "length po < length specs \<or> length so < length specs"
    and run: "make_squares env ps ss layout pairs edges s = Some (r, s')"
  shows "(\<exists>e. r = Inl e) \<and> rng_pos s + length specs \<le> rng_pos s'"
proof -
  let ?place = "place_cards env Square (length tspecs) so po ps ss (length specs) cards"
  have n: "length cards = length specs" using res by (rule resolve_cards_length)
  from run keys res obtain r1 s1 where p: "?place s = Some (r1, s1)"
    and r1: "(\<exists>e. r1 = Inl e \<and> r = Inl e \<and> s' = s1) \<or> (\<exists>x. r1 = Inr x)"
    by (auto simp: make_squares_def key_simps bnd_Some [of ?place])
  from place_cards_short [OF p n short] r1 show ?thesis by auto
qed

text \<open>
  With cards that have their sides and no images, and text sizes that are indices of the
  size table, the run with a table that is too short does stop, and on \<^verbatim>\<open>IndexError\<close>.
\<close>

lemma make_triangles_short_abort:
  assumes keys: "triangleSolutionCards layout = Some specs"
      "triangleSolutionOrientation layout = Some so" "trianglePuzzleOrientation layout = Some po"
    and res: "resolve_cards env pairs edges specs = Inr cards"
    and short: "length po < length specs \<or> length so < length specs"
    and sizes: "- 10 \<le> ps" "ps < 10" "- 10 \<le> ss" "ss < 10"
    and cards: "\<forall>c\<in>set cards. 3 \<le> length c \<and> (\<forall>e\<in>set c. plain_entry e)"
  shows "\<exists>s'. make_triangles env ps ss layout pairs edges s = Some (Inl IndexError, s')"
proof -
  have n: "length cards = length specs" using res by (rule resolve_cards_length)
  from cards have "\<forall>c\<in>set cards. sides Triangle \<le> length c \<and> (\<forall>e\<in>set c. plain_entry e)"
    by (simp add: sides_def)
  from place_cards_result [OF sizes this n, of env 0 so po s] obtain r1 s1 where
    p: "place_cards env Triangle 0 so po ps ss (length specs) cards s = Some (r1, s1)"
    and r1: "r1 = Inl IndexError \<or> (\<exists>x. r1 = Inr x)" by blast
  from place_cards_short [OF p n short] r1 have "r1 = Inl IndexError" by auto
  with p keys res have "make_triangles env ps ss layout pairs edges s = Some (Inl IndexError, s1)"
    by (simp add: make_triangles_def key_simps bnd_def)
  then show ?thesis by blast
qed

lemma make_squares_short_abort:
  assumes keys: "triangleSolutionCards layout = Some tspecs" "squareSolutionCards layout = Some specs"
      "squareSolutionOrientation layout = Some so" "squarePuzzleOrientation layout = Some po"
    and res: "resolve_cards env pairs edges specs = Inr cards"
    and short: "length po < length specs \<or> length so < length specs"
    and sizes: "- 10 \<le> ps" "ps < 10" "- 10 \<le> ss" "ss < 10"
    and cards: "\<forall>c\<in>set cards. 4 \<le> length c \<and> (\<forall>e\<in>set c. plain_entry e)"
  shows "\<exists>s'. make_squares env ps ss layout pairs edges s = Some (Inl IndexError, s')"
proof -
  have n: "length cards = length specs" using res by (rule resolve_cards_length)
  from cards have "\<forall>c\<in>set cards. sides Square \<le> length c \<and> (\<forall>e\<in>set c. plain_entry e)"
    by (simp add: sides_def)
  from place_cards_result [OF sizes this n, of env "length tspecs" so po s] obtain r1 s1 where
    p: "place_cards env Square (length tspecs) so po ps ss (length specs) cards s = Some (r1, s1)"
    and r1: "r1 = Inl IndexError \<or> (\<exists>x. r1 = Inr x)" by blast
  from place_cards_short [OF p n short] r1 have "r1 = Inl IndexError" by auto
  with p keys res have "make_squares env ps ss layout pairs edges s = Some (Inl IndexError, s1)"
    by (simp add: make_squares_def key_simps bnd_def)
  then show ?thesis by blast
qed

lemma make_triangles_take:
  assumes "triangleSolutionCards layout = Some tspecs"
  shows "make_triangles env ps ss
     (layout\<lparr>triangleSolutionOrientation :=
               map_option (take (length tspecs)) (triangleSolutionOrientation layout),
             trianglePuzzleOrientation :=
               map_option (take (length tspecs)) (trianglePuzzleOrientation layout)\<rparr>)
     pairs edges s
   = make_triangles env ps ss layout pairs edges s"
proof (cases "resolve_cards env pairs edges tspecs")
  case (Inl e)
  with assms show ?thesis by (simp add: make_triangles_def key_simps)
next
  case (Inr cards)
  then have len: "length cards = length tspecs" by (rule resolve_cards_length)
  show ?thesis
  proof (cases "triangleSolutionOrientation layout")
    case None
    with assms Inr show ?thesis by (simp add: make_triangles_def key_simps)
  next
    case so: (Some so)
    show ?thesis
    proof (cases "trianglePuzzleOrientation layout")
      case None
      with assms Inr so show ?thesis by (simp add: make_triangles_def key_simps)
    next
      case (Some po)
      with assms Inr so len show ?thesis
        by (simp add: make_triangles_def key_simps
            bnd_def [of "place_cards env sh off so po ps ss n cards" for sh off so po n]
            place_cards_take)
    qed
  qed
qed

lemma make_squares_take:
  assumes "squareSolutionCards layout = Some qspecs"
  shows "make_squares env ps ss
     (layout\<lparr>squareSolutionOrientation :=
               map_option (take (length qspecs)) (squareSolutionOrientation layout),
             squarePuzzleOrientation :=
               map_option (take (length qspecs)) (squarePuzzleOrientation layout)\<rparr>)
     pairs edges s
   = make_squares env ps ss layout pairs edges s"
proof (cases "triangleSolutionCards layout")
  case None
  then show ?thesis by (simp add: make_squares_def key_simps)
next
  case tri: (Some tspecs)
  show ?thesis
  proof (cases "resolve_cards env pairs edges qspecs")
    case (Inl e)
    with assms tri show ?thesis by (simp add: make_squares_def key_simps)
  next
    case (Inr cards)
    then have len: "length cards = length qspecs" by (rule resolve_cards_length)
    show ?thesis
    proof (cases "squareSolutionOrientation layout")
      case None
      with assms tri Inr show ?thesis by (simp add: make_squares_def key_simps)
    next
      case so: (Some so)
      show ?thesis
      proof (cases "squarePuzzleOrientation layout")
        case None
        with assms tri Inr so show ?thesis by (simp add: make_squares_def key_simps)
      next
        case (Some po)
        with assms tri Inr so len show ?thesis
          by (simp add: make_squares_def key_simps
              bnd_def [of "place_cards env sh off so po ps ss n cards" for sh off so po n]
              place_cards_take)
      qed
    qed
  qed
qed

text \<open>
  Both card functions return normally when the layout holds the keys they read, the card
  references resolve to cards with their sides and without images, the text sizes are
  indices of the size table, and the tables have an entry for every card.
\<close>

lemma md_row_returns:
  "\<exists>row' s'. md_row env row es s = Some (Inr row', s') \<and> dsubsmd s' = dsubsmd s"
proof (induction es arbitrary: row s)
  case Nil
  show ?case by (simp add: ret_def)
next
  case (Cons e es)
  have "''md'' \<in> {''table'', ''tikz'', ''md''}" "''hide'' \<in> {''hide'', ''mark'', ''ignore''}" by simp_all
  from make_entry_string [OF this(2,1), of 0 e env s]
  obtain x s1 where e: "make_entry env e 0 ''hide'' ''md'' s = Some (Inr (StrVal x), s1)" by auto
  from make_entry_final_state [OF e] have md: "dsubsmd s1 = dsubsmd s" by auto
  from Cons.IH [of "row @ x @ ''|''" s1] obtain row' s' where
    "md_row env (row @ x @ ''|'') es s1 = Some (Inr row', s')" "dsubsmd s' = dsubsmd s1" by blast
  with e md show ?case by (simp add: bnd_def)
qed

lemma dict_set_keys: "fst ` set (dict_set d k v) = insert k (fst ` set d)"
proof (induction d)
  case Nil
  show ?case by simp
next
  case (Cons kv d)
  obtain k' v' where kv: "kv = (k', v')" by (cases kv)
  show ?case
  proof (cases "k' = k")
    case True
    with kv show ?thesis by simp
  next
    case False
    with kv Cons.IH show ?thesis by (simp add: insert_commute)
  qed
qed

lemma md_append_returns:
  assumes "k \<in> fst ` set (dsubsmd s)"
  shows "\<exists>s'. md_append k v s = Some (Inr (), s')
            \<and> fst ` set (dsubsmd s') = fst ` set (dsubsmd s)"
proof -
  from assms obtain old where "map_of (dsubsmd s) k = Some old"
    by (metis image_iff map_of_eq_None_iff not_None_eq prod.collapse)
  with assms show ?thesis
    by (auto simp: md_append_def bnd_def lift_res_def dict_get_def modify_def dict_set_keys)
qed

lemma md_rows_returns:
  assumes "''puzcards4'' \<in> fst ` set (dsubsmd s)"
    "sh = Triangle \<longrightarrow> ''puzcards3'' \<in> fst ` set (dsubsmd s)"
  shows "\<exists>s'. md_rows env sh ts s = Some (Inr (), s')"
  using assms
proof (induction ts arbitrary: s)
  case Nil
  show ?case by (simp add: ret_def)
next
  case (Cons t ts)
  from md_row_returns [of env "''|''" "take (sides sh) t" s] obtain row s1 where
    row: "md_row env ''|'' (take (sides sh) t) s = Some (Inr row, s1)" and s1: "dsubsmd s1 = dsubsmd s"
    by blast
  show ?case
  proof (cases sh)
    case Triangle
    with Cons.prems s1 have k3: "''puzcards3'' \<in> fst ` set (dsubsmd s1)" by simp
    from md_append_returns [OF k3, of "row @ [CHR 0x0A]"] obtain s2 where
      a3: "md_append ''puzcards3'' (row @ [CHR 0x0A]) s1 = Some (Inr (), s2)"
      and s2: "fst ` set (dsubsmd s2) = fst ` set (dsubsmd s1)" by blast
    from Cons.prems s1 s2 have k4: "''puzcards4'' \<in> fst ` set (dsubsmd s2)" by simp
    from md_append_returns [OF k4, of "row @ '' &nbsp; |'' @ [CHR 0x0A]"] obtain s3 where
      a4: "md_append ''puzcards4'' (row @ '' &nbsp; |'' @ [CHR 0x0A]) s2 = Some (Inr (), s3)"
      and s3: "fst ` set (dsubsmd s3) = fst ` set (dsubsmd s2)" by blast
    from Cons.prems s1 s2 s3 Triangle obtain s' where
      "md_rows env sh ts s3 = Some (Inr (), s')" using Cons.IH [of s3] by auto
    with row a3 a4 Triangle show ?thesis by (simp add: bnd_def)
  next
    case Square
    from Cons.prems s1 have k4: "''puzcards4'' \<in> fst ` set (dsubsmd s1)" by simp
    from md_append_returns [OF k4, of "row @ [CHR 0x0A]"] obtain s2 where
      a4: "md_append ''puzcards4'' (row @ [CHR 0x0A]) s1 = Some (Inr (), s2)"
      and s2: "fst ` set (dsubsmd s2) = fst ` set (dsubsmd s1)" by blast
    from Cons.prems s1 s2 Square obtain s' where
      "md_rows env sh ts s2 = Some (Inr (), s')" using Cons.IH [of s2] by auto
    with row a4 Square show ?thesis by (simp add: bnd_def)
  qed
qed

lemma md_default_key:
  "\<exists>s'. md_default k s = Some (Inr (), s') \<and> k \<in> fst ` set (dsubsmd s')
        \<and> fst ` set (dsubsmd s) \<subseteq> fst ` set (dsubsmd s')"
  by (auto simp: md_default_def modify_def dict_set_keys)

lemma make_triangles_returns:
  assumes sizes: "- 10 \<le> ps" "ps < 10" "- 10 \<le> ss" "ss < 10"
    and keys: "triangleSolutionCards layout = Some specs"
      "triangleSolutionOrientation layout = Some so" "trianglePuzzleOrientation layout = Some po"
    and res: "resolve_cards env pairs edges specs = Inr cards"
    and cards: "\<forall>c\<in>set cards. 3 \<le> length c \<and> (\<forall>e\<in>set c. plain_entry e)"
    and n: "length specs \<le> length so" "length specs \<le> length po"
  shows "\<exists>s'. make_triangles env ps ss layout pairs edges s = Some (Inr (), s')"
proof -
  have len: "length cards = length specs" using res by (rule resolve_cards_length)
  from cards have "\<forall>c\<in>set cards. sides Triangle \<le> length c \<and> (\<forall>e\<in>set c. plain_entry e)"
    by (simp add: sides_def)
  from place_cards_returns [OF sizes this len n, of env 0 s] obtain order cards' puz s1 where
    p: "place_cards env Triangle 0 so po ps ss (length specs) cards s
        = Some (Inr (order, cards', puz), s1)"
    by blast
  from md_default_key [of "''puzcards3''" s1] obtain s2 where
    d3: "md_default ''puzcards3'' s1 = Some (Inr (), s2)" and k3: "''puzcards3'' \<in> fst ` set (dsubsmd s2)"
    by blast
  from md_default_key [of "''puzcards4''" s2] obtain s3 where
    d4: "md_default ''puzcards4'' s2 = Some (Inr (), s3)" and k4: "''puzcards4'' \<in> fst ` set (dsubsmd s3)"
    and sub: "fst ` set (dsubsmd s2) \<subseteq> fst ` set (dsubsmd s3)"
    by blast
  from k3 sub have "''puzcards3'' \<in> fst ` set (dsubsmd s3)" by blast
  with md_rows_returns [OF k4, of Triangle env puz] obtain s' where
    "md_rows env Triangle puz s3 = Some (Inr (), s')" by auto
  with keys res p d3 d4 show ?thesis
    by (simp add: make_triangles_def key_simps bnd_def)
qed

lemma make_squares_returns:
  assumes sizes: "- 10 \<le> ps" "ps < 10" "- 10 \<le> ss" "ss < 10"
    and keys: "triangleSolutionCards layout = Some tspecs" "squareSolutionCards layout = Some specs"
      "squareSolutionOrientation layout = Some so" "squarePuzzleOrientation layout = Some po"
    and res: "resolve_cards env pairs edges specs = Inr cards"
    and cards: "\<forall>c\<in>set cards. 4 \<le> length c \<and> (\<forall>e\<in>set c. plain_entry e)"
    and n: "length specs \<le> length so" "length specs \<le> length po"
  shows "\<exists>s'. make_squares env ps ss layout pairs edges s = Some (Inr (), s')"
proof -
  have len: "length cards = length specs" using res by (rule resolve_cards_length)
  from cards have "\<forall>c\<in>set cards. sides Square \<le> length c \<and> (\<forall>e\<in>set c. plain_entry e)"
    by (simp add: sides_def)
  from place_cards_returns [OF sizes this len n, of env "length tspecs" s]
  obtain order cards' puz s1 where
    p: "place_cards env Square (length tspecs) so po ps ss (length specs) cards s
        = Some (Inr (order, cards', puz), s1)"
    by blast
  from md_default_key [of "''puzcards4''" s1] obtain s2 where
    d4: "md_default ''puzcards4'' s1 = Some (Inr (), s2)" and k4: "''puzcards4'' \<in> fst ` set (dsubsmd s2)"
    by blast
  from md_rows_returns [OF k4, of Square env puz] obtain s' where
    "md_rows env Square puz s2 = Some (Inr (), s')" by auto
  with keys res p d4 show ?thesis
    by (simp add: make_squares_def key_simps bnd_def)
qed

text \<open>
  Two runs with tables that do not match the two cards. With three entries in each table
  the run ends normally. With one entry for the puzzle positions it stops on an
  \<^verbatim>\<open>IndexError\<close> after two draws.
\<close>

theorem orientation_tables_counterexample:
  "map_option length (triangleSolutionCards ex_long) = Some 2
   \<and> map_option length (trianglePuzzleOrientation ex_long) = Some 3
   \<and> map_option length (triangleSolutionOrientation ex_long) = Some 3
   \<and> map_option fst (make_triangles ex_env 4 4 ex_long ex_pairs ex_edges start) = Some (Inr ())
   \<and> map_option length (triangleSolutionCards ex_short) = Some 2
   \<and> map_option length (trianglePuzzleOrientation ex_short) = Some 1
   \<and> map_option (\<lambda>r. (fst r, rng_pos (snd r)))
        (make_triangles ex_env 4 4 ex_short ex_pairs ex_edges start) = Some (Inl IndexError, 2)"
  by code_simp

text \<open>
  Claim C5, as amended. The number of solution cards is never compared with the sizes of
  the orientation tables, and the order is drawn before an entry of a table is read. The
  entries of a table beyond the number of cards are not read: the run is the run with the
  tables cut to that number, so a table that is too long does not abort it. With a table
  that has fewer entries than there are cards, in a layout that holds the keys the
  function reads and with card references that resolve, the run does not end normally,
  and an exception that stops it is raised only when as many draws as there are cards
  have been made: the whole permutation and at least one rotation. When moreover the
  cards have their sides and no images and the text sizes are indices of the size table,
  the run does stop, on an \<^verbatim>\<open>IndexError\<close>.
\<close>

theorem orientation_tables_unchecked:
  assumes "triangleSolutionCards layout = Some tspecs" "squareSolutionCards layout = Some qspecs"
  shows "make_triangles env ps ss
     (layout\<lparr>triangleSolutionOrientation :=
               map_option (take (length tspecs)) (triangleSolutionOrientation layout),
             trianglePuzzleOrientation :=
               map_option (take (length tspecs)) (trianglePuzzleOrientation layout)\<rparr>)
     pairs edges s
   = make_triangles env ps ss layout pairs edges s
   \<and> make_squares env ps ss
     (layout\<lparr>squareSolutionOrientation :=
               map_option (take (length qspecs)) (squareSolutionOrientation layout),
             squarePuzzleOrientation :=
               map_option (take (length qspecs)) (squarePuzzleOrientation layout)\<rparr>)
     pairs edges s
   = make_squares env ps ss layout pairs edges s
   \<and> (triangleSolutionOrientation layout = Some tso \<and> trianglePuzzleOrientation layout = Some tpo
      \<and> resolve_cards env pairs edges tspecs = Inr tcards
      \<and> (length tpo < length tspecs \<or> length tso < length tspecs)
      \<longrightarrow> (make_triangles env ps ss layout pairs edges s = Some (r, s')
           \<longrightarrow> (\<exists>e. r = Inl e) \<and> rng_pos s + length tspecs \<le> rng_pos s')
        \<and> (- 10 \<le> ps \<and> ps < 10 \<and> - 10 \<le> ss \<and> ss < 10
           \<and> (\<forall>c\<in>set tcards. 3 \<le> length c \<and> (\<forall>e\<in>set c. plain_entry e))
           \<longrightarrow> (\<exists>s1. make_triangles env ps ss layout pairs edges s = Some (Inl IndexError, s1))))
   \<and> (squareSolutionOrientation layout = Some qso \<and> squarePuzzleOrientation layout = Some qpo
      \<and> resolve_cards env pairs edges qspecs = Inr qcards
      \<and> (length qpo < length qspecs \<or> length qso < length qspecs)
      \<longrightarrow> (make_squares env ps ss layout pairs edges s = Some (r2, s2)
           \<longrightarrow> (\<exists>e. r2 = Inl e) \<and> rng_pos s + length qspecs \<le> rng_pos s2)
        \<and> (- 10 \<le> ps \<and> ps < 10 \<and> - 10 \<le> ss \<and> ss < 10
           \<and> (\<forall>c\<in>set qcards. 4 \<le> length c \<and> (\<forall>e\<in>set c. plain_entry e))
           \<longrightarrow> (\<exists>s1. make_squares env ps ss layout pairs edges s = Some (Inl IndexError, s1))))"
proof (intro conjI impI)
  show "make_triangles env ps ss
     (layout\<lparr>triangleSolutionOrientation :=
               map_option (take (length tspecs)) (triangleSolutionOrientation layout),
             trianglePuzzleOrientation :=
               map_option (take (length tspecs)) (trianglePuzzleOrientation layout)\<rparr>)
     pairs edges s
   = make_triangles env ps ss layout pairs edges s"
    using assms(1) by (rule make_triangles_take)
  show "make_squares env ps ss
     (layout\<lparr>squareSolutionOrientation :=
               map_option (take (length qspecs)) (squareSolutionOrientation layout),
             squarePuzzleOrientation :=
               map_option (take (length qspecs)) (squarePuzzleOrientation layout)\<rparr>)
     pairs edges s
   = make_squares env ps ss layout pairs edges s"
    using assms(2) by (rule make_squares_take)
next
  assume h: "triangleSolutionOrientation layout = Some tso \<and> trianglePuzzleOrientation layout = Some tpo
      \<and> resolve_cards env pairs edges tspecs = Inr tcards
      \<and> (length tpo < length tspecs \<or> length tso < length tspecs)"
    and run: "make_triangles env ps ss layout pairs edges s = Some (r, s')"
  from make_triangles_short [OF assms(1) _ _ _ _ run, of tso tpo tcards] h
  show "\<exists>e. r = Inl e" and "rng_pos s + length tspecs \<le> rng_pos s'" by auto
next
  assume h: "triangleSolutionOrientation layout = Some tso \<and> trianglePuzzleOrientation layout = Some tpo
      \<and> resolve_cards env pairs edges tspecs = Inr tcards
      \<and> (length tpo < length tspecs \<or> length tso < length tspecs)"
    and wf: "- 10 \<le> ps \<and> ps < 10 \<and> - 10 \<le> ss \<and> ss < 10
           \<and> (\<forall>c\<in>set tcards. 3 \<le> length c \<and> (\<forall>e\<in>set c. plain_entry e))"
  from make_triangles_short_abort [OF assms(1), of tso tpo env pairs edges tcards ps ss s] h wf
  show "\<exists>s1. make_triangles env ps ss layout pairs edges s = Some (Inl IndexError, s1)" by blast
next
  assume h: "squareSolutionOrientation layout = Some qso \<and> squarePuzzleOrientation layout = Some qpo
      \<and> resolve_cards env pairs edges qspecs = Inr qcards
      \<and> (length qpo < length qspecs \<or> length qso < length qspecs)"
    and run: "make_squares env ps ss layout pairs edges s = Some (r2, s2)"
  from make_squares_short [OF assms _ _ _ _ run, of qso qpo qcards] h
  show "\<exists>e. r2 = Inl e" and "rng_pos s + length qspecs \<le> rng_pos s2" by auto
next
  assume h: "squareSolutionOrientation layout = Some qso \<and> squarePuzzleOrientation layout = Some qpo
      \<and> resolve_cards env pairs edges qspecs = Inr qcards
      \<and> (length qpo < length qspecs \<or> length qso < length qspecs)"
    and wf: "- 10 \<le> ps \<and> ps < 10 \<and> - 10 \<le> ss \<and> ss < 10
           \<and> (\<forall>c\<in>set qcards. 4 \<le> length c \<and> (\<forall>e\<in>set c. plain_entry e))"
  from make_squares_short_abort [OF assms, of qso qpo env pairs edges qcards ps ss s] h wf
  show "\<exists>s1. make_squares env ps ss layout pairs edges s = Some (Inl IndexError, s1)" by blast
qed

theorem orientation_tables_unchecked_witness:
  "(\<exists>s'. make_triangles ex_env 4 4 ex_short ex_pairs ex_edges start = Some (Inl IndexError, s')
          \<and> rng_pos start + 2 \<le> rng_pos s')
   \<and> (\<exists>s'. make_squares ex_env 4 4 ex_short ex_pairs ex_edges start = Some (Inl IndexError, s')
          \<and> rng_pos start + 1 \<le> rng_pos s')"
proof -
  have keys: "triangleSolutionCards ex_short = Some [[''Q1'', ''A1'', ''E1''], [''Q2'', ''A2'', ''E2'']]"
    "squareSolutionCards ex_short = Some [[''Q1'', ''A2'', ''E1'', ''E2'']]"
    "triangleSolutionOrientation ex_short = Some [0, 180]"
    "trianglePuzzleOrientation ex_short = Some [(0, 0)]"
    "squareSolutionOrientation ex_short = Some []"
    "squarePuzzleOrientation ex_short = Some [(0, 90)]"
    by (simp_all add: ex_short_def ex_layout_def)
  have rt: "resolve_cards ex_env ex_pairs ex_edges [[''Q1'', ''A1'', ''E1''], [''Q2'', ''A2'', ''E2'']]
      = Inr ex_cards"
    by code_simp
  have rq: "resolve_cards ex_env ex_pairs ex_edges [[''Q1'', ''A2'', ''E1'', ''E2'']]
      = Inr ex_square_cards"
    by code_simp
  have wft: "\<forall>c\<in>set ex_cards. 3 \<le> length c \<and> (\<forall>e\<in>set c. plain_entry e)"
    by (simp add: ex_cards_def plain_entry_def shown_text_def py_str_def str_int_def
        str_nat.simps img_match_def)
  have wfq: "\<forall>c\<in>set ex_square_cards. 4 \<le> length c \<and> (\<forall>e\<in>set c. plain_entry e)"
    by (simp add: ex_square_cards_def plain_entry_def shown_text_def py_str_def img_match_def)
  from orientation_tables_unchecked [OF keys(1,2), of ex_env 4 4 ex_pairs ex_edges start
      "[0, 180]" "[(0, 0)]" ex_cards "Inl IndexError" start "[]" "[(0, 90)]" ex_square_cards
      "Inl IndexError" start] keys rt rq wft wfq
  have "(\<exists>s1. make_triangles ex_env 4 4 ex_short ex_pairs ex_edges start = Some (Inl IndexError, s1))
      \<and> (\<exists>s2. make_squares ex_env 4 4 ex_short ex_pairs ex_edges start = Some (Inl IndexError, s2))"
    by simp
  then obtain s1 s2 where
    t: "make_triangles ex_env 4 4 ex_short ex_pairs ex_edges start = Some (Inl IndexError, s1)"
    and q: "make_squares ex_env 4 4 ex_short ex_pairs ex_edges start = Some (Inl IndexError, s2)"
    by blast
  from orientation_tables_unchecked [OF keys(1,2), of ex_env 4 4 ex_pairs ex_edges start
      "[0, 180]" "[(0, 0)]" ex_cards "Inl IndexError" s1 "[]" "[(0, 90)]" ex_square_cards
      "Inl IndexError" s2] keys rt rq t q
  show ?thesis by auto
qed

end
